theory Spec2Isabelle
  imports Main
begin

section \<open>JavaScript strings\<close>

text \<open>
  A string is the list of its UTF-16 code units, a code unit being a natural number, so
  that \<^const>\<open>length\<close> is the JavaScript \<^verbatim>\<open>length\<close>; \<open>str\<close> is the string of an
  ASCII text. \<^verbatim>\<open>String.prototype.slice(start, end)\<close> counts a negative index from the
  end and clamps both indices to the string; \<^verbatim>\<open>String.prototype.repeat(count)\<close> raises
  a RangeError on a negative count, which is the value \<^const>\<open>None\<close> here.
\<close>

type_synonym jsstring = "nat list"

definition str :: "string \<Rightarrow> jsstring" where
  "str s = map of_char s"

definition js_slice :: "'a list \<Rightarrow> int \<Rightarrow> int \<Rightarrow> 'a list" where
  "js_slice s start end =
     (let len = int (length s);
          from = (if start < 0 then max (len + start) 0 else min start len);
          to = (if end < 0 then max (len + end) 0 else min end len)
      in take (nat (to - from)) (drop (nat from) s))"

definition js_slice_from :: "'a list \<Rightarrow> int \<Rightarrow> 'a list" where
  "js_slice_from s start = js_slice s start (int (length s))"

definition js_repeat :: "'a list \<Rightarrow> int \<Rightarrow> 'a list option" where
  "js_repeat s count = (if count < 0 then None else Some (concat (replicate (nat count) s)))"

section \<open>Masking a secret\<close>

text \<open>
  \<^verbatim>\<open>maskSecret\<close> (check-secrets.ts, lines 144-152). The template literal is the
  concatenation of its three parts; an exception of \<^verbatim>\<open>repeat\<close> would leave the
  function, so the result is an option.
\<close>

definition maskSecret :: "jsstring \<Rightarrow> jsstring option" where
  "maskSecret v =
     (if length v \<le> 8 then js_repeat (str ''*'') (int (length v))
      else
        (let visibleStart = js_slice v 0 4;
             visibleEnd = js_slice_from v (- 4)
         in case js_repeat (str ''*'') (min (int (length v) - 8) 16) of
              None \<Rightarrow> None
            | Some maskedMiddle \<Rightarrow> Some (visibleStart @ maskedMiddle @ visibleEnd)))"

section \<open>Further string primitives\<close>

text \<open>
  \<^verbatim>\<open>split\<close> on a one-character separator (it always returns at least one piece),
  \<^verbatim>\<open>join\<close>, \<^verbatim>\<open>startsWith\<close>, \<^verbatim>\<open>endsWith\<close> and \<^verbatim>\<open>includes\<close>.
\<close>

fun js_split :: "'a \<Rightarrow> 'a list \<Rightarrow> 'a list list" where
  "js_split sep [] = [[]]"
| "js_split sep (c # cs) =
     (if c = sep then [] # js_split sep cs
      else (case js_split sep cs of
              [] \<Rightarrow> [[c]]
            | piece # pieces \<Rightarrow> (c # piece) # pieces))"

fun js_join :: "'a list \<Rightarrow> 'a list list \<Rightarrow> 'a list" where
  "js_join sep [] = []"
| "js_join sep [piece] = piece"
| "js_join sep (piece # pieces) = piece @ sep @ js_join sep pieces"

definition js_startsWith :: "'a list \<Rightarrow> 'a list \<Rightarrow> bool" where
  "js_startsWith s p = (take (length p) s = p)"

definition js_endsWith :: "'a list \<Rightarrow> 'a list \<Rightarrow> bool" where
  "js_endsWith s p = (length p \<le> length s \<and> drop (length s - length p) s = p)"

fun js_includes :: "'a list \<Rightarrow> 'a list \<Rightarrow> bool" where
  "js_includes [] p = (p = [])"
| "js_includes (c # cs) p = (js_startsWith (c # cs) p \<or> js_includes cs p)"

text \<open>
  \<^verbatim>\<open>replace(/needle/g, rep)\<close> for a regular expression that is a literal, non-empty
  text: every occurrence, left to right, without overlap.
\<close>

fun js_replace_all :: "'a list \<Rightarrow> 'a list \<Rightarrow> 'a list \<Rightarrow> 'a list" where
  "js_replace_all needle rep [] = []"
| "js_replace_all needle rep (c # cs) =
     (if needle \<noteq> [] \<and> take (length needle) (c # cs) = needle
      then rep @ js_replace_all needle rep (drop (length needle) (c # cs))
      else c # js_replace_all needle rep cs)"

text \<open>
  White space (of \<^verbatim>\<open>trim\<close> and of \<^verbatim>\<open>\s\<close>) and line terminators (what \<^verbatim>\<open>.\<close>
  does not match) are those of ECMAScript.
\<close>

definition js_line_terminator :: "nat \<Rightarrow> bool" where
  "js_line_terminator c = (c = 10 \<or> c = 13 \<or> c = 8232 \<or> c = 8233)"

definition js_space :: "nat \<Rightarrow> bool" where
  "js_space c =
     (c = 9 \<or> c = 10 \<or> c = 11 \<or> c = 12 \<or> c = 13 \<or> c = 32 \<or> c = 160 \<or> c = 5760
      \<or> (8192 \<le> c \<and> c \<le> 8202) \<or> c = 8232 \<or> c = 8233 \<or> c = 8239 \<or> c = 8287
      \<or> c = 12288 \<or> c = 65279)"

definition js_trimStart_by :: "('a \<Rightarrow> bool) \<Rightarrow> 'a list \<Rightarrow> 'a list" where
  "js_trimStart_by sp s = dropWhile sp s"

definition js_trimEnd_by :: "('a \<Rightarrow> bool) \<Rightarrow> 'a list \<Rightarrow> 'a list" where
  "js_trimEnd_by sp s = rev (dropWhile sp (rev s))"

definition js_trim_by :: "('a \<Rightarrow> bool) \<Rightarrow> 'a list \<Rightarrow> 'a list" where
  "js_trim_by sp s = js_trimEnd_by sp (js_trimStart_by sp s)"

definition js_trim :: "jsstring \<Rightarrow> jsstring" where
  "js_trim s = js_trim_by js_space s"

definition js_trimStart :: "jsstring \<Rightarrow> jsstring" where
  "js_trimStart s = js_trimStart_by js_space s"

definition js_trimEnd :: "jsstring \<Rightarrow> jsstring" where
  "js_trimEnd s = js_trimEnd_by js_space s"

section \<open>The data model of \<^verbatim>\<open>check-secrets.ts\<close>\<close>

record SecretPattern =
  sp_name :: jsstring
  sp_pattern :: jsstring
  sp_context :: "jsstring list option"
  sp_description :: jsstring

record SecretsConfig =
  patterns :: "SecretPattern list"
  ignorePatterns :: "jsstring list"
  fileExtensions :: "jsstring list"

record SecretMatch =
  sm_file :: jsstring
  sm_line :: nat
  sm_column :: nat
  sm_pattern :: jsstring
  sm_patternName :: jsstring
  sm_match :: jsstring
  sm_maskedMatch :: jsstring
  sm_context :: jsstring

record ScanResult =
  totalFiles :: nat
  scannedFiles :: nat
  secretsFound :: "SecretMatch list"
  hasSecrets :: bool

text \<open>
  Two functions of the runtime are parameters of the model. The first is the regular
  expression engine: \<^verbatim>\<open>new RegExp(source)\<close> is \<^const>\<open>None\<close> when the source does not
  compile (a SyntaxError), else the compiled expression: given the subject and
  \<^verbatim>\<open>lastIndex\<close> it returns the start and the length of the next match, or \<^const>\<open>None\<close>.
  \<^verbatim>\<open>test\<close> of an expression without the global flag searches from 0. The second is
  \<^verbatim>\<open>String.prototype.toLowerCase\<close>, a function from strings to strings called
  \<open>toLowerCase\<close> wherever the code calls it: it follows the Unicode case tables, is not a
  map over the code units (a capital sigma becomes a final or a small sigma after what
  surrounds it) and may change the length.
\<close>

type_synonym regexp = "jsstring \<Rightarrow> nat \<Rightarrow> (nat \<times> nat) option"
type_synonym regexp_engine = "jsstring \<Rightarrow> regexp option"

definition regexp_test :: "regexp \<Rightarrow> jsstring \<Rightarrow> bool" where
  "regexp_test re s = (re s 0 \<noteq> None)"

section \<open>Line and column of a match\<close>

text \<open>
  \<^verbatim>\<open>getLineContext\<close> (lines 157-167). \<^verbatim>\<open>lines[lines.length - 1]?.length || 0\<close> is
  the length of the last piece (there is always one); \<^verbatim>\<open>allLines[line - 1] || ''\<close> is
  the empty string when the index is out of range.
\<close>

definition getLineContext :: "jsstring \<Rightarrow> nat \<Rightarrow> nat \<times> nat \<times> jsstring" where
  "getLineContext content matchIndex =
     (let lines = js_split 10 (js_slice content 0 (int matchIndex));
          line = length lines;
          column = (if lines = [] then 0 else length (last lines)) + 1;
          allLines = js_split 10 content;
          ctx = (if line - 1 < length allLines then allLines ! (line - 1) else [])
      in (line, column, js_trim ctx))"

section \<open>Scanning one file\<close>

text \<open>
  The body of the \<^verbatim>\<open>while\<close> loop of \<^verbatim>\<open>scanFile\<close> (lines 188-217) for one match
  of the expression at \<open>idx\<close> with \<open>len\<close> characters: \<^verbatim>\<open>continue\<close>, a pushed
  match, or an exception (which the \<^verbatim>\<open>catch\<close> of the pattern takes).
\<close>

datatype scan_step = Skip | Keep SecretMatch | Raise

definition hasContext ::
  "(jsstring \<Rightarrow> jsstring) \<Rightarrow> jsstring list \<Rightarrow> jsstring \<Rightarrow> nat \<Rightarrow> nat \<Rightarrow> bool" where
  "hasContext toLowerCase ctxs content idx len =
     (let surroundingText =
            toLowerCase (js_slice content (max 0 (int idx - 100)) (int idx + int len + 100))
      in list_ex (\<lambda>ctx. js_includes surroundingText (toLowerCase ctx)) ctxs)"

definition scan_match ::
  "(jsstring \<Rightarrow> jsstring) \<Rightarrow> SecretPattern \<Rightarrow> jsstring \<Rightarrow> jsstring \<Rightarrow> nat \<Rightarrow> nat \<Rightarrow> scan_step" where
  "scan_match toLowerCase patternConfig relativePath content idx len =
     (if (case sp_context patternConfig of
            None \<Rightarrow> False
          | Some ctxs \<Rightarrow> length ctxs > 0 \<and> \<not> hasContext toLowerCase ctxs content idx len)
      then Skip
      else
        (let (line, column, ctx) = getLineContext content idx;
             m = js_slice content (int idx) (int idx + int len)
         in case maskSecret m of
              None \<Rightarrow> Raise
            | Some masked \<Rightarrow>
                Keep \<lparr> sm_file = relativePath, sm_line = line, sm_column = column,
                       sm_pattern = sp_pattern patternConfig, sm_patternName = sp_name patternConfig,
                       sm_match = m, sm_maskedMatch = masked, sm_context = ctx \<rparr>))"

text \<open>
  The \<^verbatim>\<open>while ((match = regex.exec(content)) !== null)\<close> loop. With the global flag
  \<^verbatim>\<open>exec\<close> sets \<^verbatim>\<open>lastIndex\<close> to the end of the match, so the loop does not
  return when the expression keeps matching the empty text at one place: the loop is a
  partial function, and not returning is \<^const>\<open>None\<close>.
\<close>

partial_function (option) exec_loop ::
  "regexp \<Rightarrow> (jsstring \<Rightarrow> jsstring) \<Rightarrow> SecretPattern \<Rightarrow> jsstring \<Rightarrow> jsstring \<Rightarrow> nat
     \<Rightarrow> SecretMatch list \<Rightarrow> SecretMatch list option"
where
  "exec_loop re toLowerCase patternConfig relativePath content lastIndex matches =
     (case re content lastIndex of
        None \<Rightarrow> Some matches
      | Some (idx, len) \<Rightarrow>
          (case scan_match toLowerCase patternConfig relativePath content idx len of
             Skip \<Rightarrow> exec_loop re toLowerCase patternConfig relativePath content (idx + len) matches
           | Keep m \<Rightarrow>
               exec_loop re toLowerCase patternConfig relativePath content (idx + len) (matches @ [m])
           | Raise \<Rightarrow> Some matches))"

text \<open>
  The \<^verbatim>\<open>for\<close> loop over the patterns: a pattern whose source does not compile is
  skipped with a warning.
\<close>

fun scan_patterns ::
  "regexp_engine \<Rightarrow> (jsstring \<Rightarrow> jsstring) \<Rightarrow> jsstring \<Rightarrow> jsstring \<Rightarrow> SecretPattern list
     \<Rightarrow> SecretMatch list \<Rightarrow> SecretMatch list option"
where
  "scan_patterns RegExp toLowerCase relativePath content [] matches = Some matches"
| "scan_patterns RegExp toLowerCase relativePath content (patternConfig # rest) matches =
     (case RegExp (sp_pattern patternConfig) of
        None \<Rightarrow> scan_patterns RegExp toLowerCase relativePath content rest matches
      | Some re \<Rightarrow>
          (case exec_loop re toLowerCase patternConfig relativePath content 0 matches of
             None \<Rightarrow> None
           | Some matches' \<Rightarrow> scan_patterns RegExp toLowerCase relativePath content rest matches'))"

text \<open>
  Paths: the traversal starts at \<^verbatim>\<open>ROOT_DIR\<close> and builds every path with
  \<^verbatim>\<open>join(currentDir, entry)\<close>, an entry being a plain name; \<^verbatim>\<open>relative\<close> of such a
  path is the text behind the root and its separator.
\<close>

definition path_join :: "jsstring \<Rightarrow> jsstring \<Rightarrow> jsstring" where
  "path_join dir entry = dir @ str ''/'' @ entry"

definition path_relative :: "jsstring \<Rightarrow> jsstring \<Rightarrow> jsstring" where
  "path_relative root p =
     (if p = root then []
      else if js_startsWith p (root @ str ''/'') then drop (length root + 1) p
      else p)"

text \<open>
  \<^verbatim>\<open>scanFile\<close> (lines 172-232): \<open>readText\<close> is \<^verbatim>\<open>Bun.file(filePath).text()\<close>,
  \<^const>\<open>None\<close> when the file cannot be read (a warning, and no match).
\<close>

definition scanFile ::
  "regexp_engine \<Rightarrow> (jsstring \<Rightarrow> jsstring) \<Rightarrow> jsstring \<Rightarrow> (jsstring \<Rightarrow> jsstring option) \<Rightarrow> jsstring
     \<Rightarrow> SecretPattern list \<Rightarrow> SecretMatch list option" where
  "scanFile RegExp toLowerCase ROOT_DIR readText filePath pats =
     (case readText filePath of
        None \<Rightarrow> Some []
      | Some content \<Rightarrow>
          scan_patterns RegExp toLowerCase (path_relative ROOT_DIR filePath) content pats [])"

section \<open>Ignore globs and extensions\<close>

text \<open>
  \<^verbatim>\<open>minimatch\<close> (lines 58-75) rewrites the glob into the source of a regular
  expression and tests the path with it; \<^const>\<open>None\<close> is the SyntaxError of a source
  that does not compile.
\<close>

definition minimatch :: "regexp_engine \<Rightarrow> jsstring \<Rightarrow> jsstring \<Rightarrow> bool option" where
  "minimatch RegExp path pat =
     (let normalizedPath = js_replace_all [92] (str ''/'') path;
          normalizedPattern = js_replace_all [92] (str ''/'') pat;
          regexPattern =
            js_replace_all (str ''?'') (str ''.'')
              (js_replace_all (str ''{{GLOBSTAR}}'') (str ''.*'')
                 (js_replace_all (str ''*'') (str ''[^/]*'')
                    (js_replace_all (str ''**'') (str ''{{GLOBSTAR}}'')
                       (js_replace_all (str ''.'') (92 # str ''.'') normalizedPattern))))
      in case RegExp (str ''^'' @ regexPattern @ str ''$|/'' @ regexPattern @ str ''$|^''
                        @ regexPattern @ str ''/|/'' @ regexPattern @ str ''/'') of
           None \<Rightarrow> None
         | Some regex \<Rightarrow> Some (regexp_test regex normalizedPath))"

text \<open>
  \<^verbatim>\<open>Array.prototype.some\<close> stops at the first pattern that matches; an exception of
  the callback leaves it.
\<close>

fun some_minimatch :: "regexp_engine \<Rightarrow> jsstring \<Rightarrow> jsstring list \<Rightarrow> bool option" where
  "some_minimatch RegExp relativePath [] = Some False"
| "some_minimatch RegExp relativePath (pat # pats) =
     (case minimatch RegExp relativePath pat of
        None \<Rightarrow> None
      | Some True \<Rightarrow> Some True
      | Some False \<Rightarrow> some_minimatch RegExp relativePath pats)"

definition shouldIgnore ::
  "regexp_engine \<Rightarrow> jsstring \<Rightarrow> jsstring \<Rightarrow> jsstring list \<Rightarrow> bool option" where
  "shouldIgnore RegExp ROOT_DIR filePath ignores =
     (let relativePath = path_relative ROOT_DIR filePath
      in some_minimatch RegExp relativePath ignores)"

text \<open>
  \<^verbatim>\<open>extname\<close> of node:path, for a path without a trailing separator: the text from
  the last dot of the last portion on, and the empty text when that portion has no dot, or
  no dot but its first character, or is two dots.
\<close>

definition path_basename :: "jsstring \<Rightarrow> jsstring" where
  "path_basename p = last (js_split 47 p)"

definition path_extname :: "jsstring \<Rightarrow> jsstring" where
  "path_extname p =
     (let base = path_basename p;
          afterDot = takeWhile (\<lambda>c. c \<noteq> 46) (rev base)
      in if 46 \<notin> set base \<or> length afterDot + 1 = length base \<or> base = str ''..''
         then [] else 46 # rev afterDot)"

text \<open>\<^verbatim>\<open>hasValidExtension\<close> (lines 129-139).\<close>

definition hasValidExtension :: "(jsstring \<Rightarrow> jsstring) \<Rightarrow> jsstring \<Rightarrow> jsstring list \<Rightarrow> bool" where
  "hasValidExtension toLowerCase filePath extensions =
     (let ext = toLowerCase (path_extname filePath);
          fileName = last (js_split 47 filePath)
      in list_ex (\<lambda>allowedExt.
           if js_startsWith allowedExt (str ''.env'') then js_startsWith fileName (str ''.env'')
           else ext = allowedExt) extensions)"

section \<open>The directory traversal\<close>

text \<open>
  What \<^verbatim>\<open>readdir\<close> and \<^verbatim>\<open>stat\<close> see: a regular file, a directory with its
  entries, a directory that cannot be read, an entry that is neither a file nor a
  directory, and an entry whose \<^verbatim>\<open>stat\<close> fails.
\<close>

datatype fsnode =
    RegularFile
  | Directory "(jsstring \<times> fsnode) list"
  | UnreadableDirectory
  | OtherEntry
  | StatFails

record walk_state =
  files :: "jsstring list"
  scanned :: nat

text \<open>
  \<^verbatim>\<open>walk\<close> of \<^verbatim>\<open>scanDirectory\<close> (lines 244-277), with the two variables it
  updates as the state. An exception of \<^verbatim>\<open>shouldIgnore\<close> is taken by the outer
  \<^verbatim>\<open>catch\<close>: the rest of the directory is left out.
\<close>

fun walk ::
  "regexp_engine \<Rightarrow> (jsstring \<Rightarrow> jsstring) \<Rightarrow> jsstring \<Rightarrow> SecretsConfig \<Rightarrow> jsstring \<Rightarrow> fsnode
     \<Rightarrow> walk_state \<Rightarrow> walk_state"
and walk_entries ::
  "regexp_engine \<Rightarrow> (jsstring \<Rightarrow> jsstring) \<Rightarrow> jsstring \<Rightarrow> SecretsConfig \<Rightarrow> jsstring
     \<Rightarrow> (jsstring \<times> fsnode) list \<Rightarrow> walk_state \<Rightarrow> walk_state"
where
  "walk RegExp toLowerCase ROOT_DIR config currentDir (Directory entries) st =
     walk_entries RegExp toLowerCase ROOT_DIR config currentDir entries st"
| "walk RegExp toLowerCase ROOT_DIR config currentDir RegularFile st = st"
| "walk RegExp toLowerCase ROOT_DIR config currentDir UnreadableDirectory st = st"
| "walk RegExp toLowerCase ROOT_DIR config currentDir OtherEntry st = st"
| "walk RegExp toLowerCase ROOT_DIR config currentDir StatFails st = st"
| "walk_entries RegExp toLowerCase ROOT_DIR config currentDir [] st = st"
| "walk_entries RegExp toLowerCase ROOT_DIR config currentDir ((entry, node) # rest) st =
     (let fullPath = path_join currentDir entry
      in case shouldIgnore RegExp ROOT_DIR fullPath (ignorePatterns config) of
           None \<Rightarrow> st
         | Some True \<Rightarrow> walk_entries RegExp toLowerCase ROOT_DIR config currentDir rest st
         | Some False \<Rightarrow>
             (case node of
                StatFails \<Rightarrow> walk_entries RegExp toLowerCase ROOT_DIR config currentDir rest st
              | OtherEntry \<Rightarrow> walk_entries RegExp toLowerCase ROOT_DIR config currentDir rest st
              | RegularFile \<Rightarrow>
                  walk_entries RegExp toLowerCase ROOT_DIR config currentDir rest
                    (st \<lparr> scanned := scanned st + 1,
                          files := (if hasValidExtension toLowerCase fullPath (fileExtensions config)
                                    then files st @ [fullPath] else files st) \<rparr>)
              | _ \<Rightarrow>
                  (if \<not> js_startsWith entry (str ''.'') \<or> entry = str ''.config''
                   then walk_entries RegExp toLowerCase ROOT_DIR config currentDir rest
                          (walk RegExp toLowerCase ROOT_DIR config fullPath node st)
                   else walk_entries RegExp toLowerCase ROOT_DIR config currentDir rest st)))"

definition scanDirectory ::
  "regexp_engine \<Rightarrow> (jsstring \<Rightarrow> jsstring) \<Rightarrow> jsstring \<Rightarrow> fsnode \<Rightarrow> jsstring \<Rightarrow> SecretsConfig
     \<Rightarrow> jsstring list \<times> nat" where
  "scanDirectory RegExp toLowerCase ROOT_DIR tree dir config =
     (let st = walk RegExp toLowerCase ROOT_DIR config dir tree \<lparr> files = [], scanned = 0 \<rparr>
      in (files st, scanned st))"

text \<open>
  The part of \<^verbatim>\<open>main\<close> that builds the result (lines 410-430): the files are
  scanned in order, and the result takes its two counts from \<^verbatim>\<open>scanDirectory\<close>.
\<close>

fun scan_files ::
  "regexp_engine \<Rightarrow> (jsstring \<Rightarrow> jsstring) \<Rightarrow> jsstring \<Rightarrow> (jsstring \<Rightarrow> jsstring option)
     \<Rightarrow> SecretPattern list \<Rightarrow> jsstring list \<Rightarrow> SecretMatch list \<Rightarrow> SecretMatch list option" where
  "scan_files RegExp toLowerCase ROOT_DIR readText pats [] allMatches = Some allMatches"
| "scan_files RegExp toLowerCase ROOT_DIR readText pats (file # rest) allMatches =
     (case scanFile RegExp toLowerCase ROOT_DIR readText file pats of
        None \<Rightarrow> None
      | Some matches \<Rightarrow>
          scan_files RegExp toLowerCase ROOT_DIR readText pats rest (allMatches @ matches))"

definition main_result ::
  "regexp_engine \<Rightarrow> (jsstring \<Rightarrow> jsstring) \<Rightarrow> jsstring \<Rightarrow> fsnode \<Rightarrow> (jsstring \<Rightarrow> jsstring option)
     \<Rightarrow> SecretsConfig \<Rightarrow> ScanResult option" where
  "main_result RegExp toLowerCase ROOT_DIR tree readText config =
     (let (fs, n) = scanDirectory RegExp toLowerCase ROOT_DIR tree ROOT_DIR config
      in case scan_files RegExp toLowerCase ROOT_DIR readText (patterns config) fs [] of
           None \<Rightarrow> None
         | Some allMatches \<Rightarrow>
             Some \<lparr> totalFiles = length fs, scannedFiles = n, secretsFound = allMatches,
                    hasSecrets = (length allMatches > 0) \<rparr>)"

section \<open>Notions of the specification\<close>

text \<open>
  The matches of an expression in a content that the loop of \<^verbatim>\<open>scanFile\<close> goes
  through: the successive results of \<^verbatim>\<open>exec\<close>, each search starting where the match
  before it ended, up to the search that finds nothing. A span is the start and the length
  of a match.
\<close>

inductive exec_run :: "regexp \<Rightarrow> jsstring \<Rightarrow> nat \<Rightarrow> (nat \<times> nat) list \<Rightarrow> bool"
  for re :: regexp and content :: jsstring
where
  exec_run_end: "re content lastIndex = None \<Longrightarrow> exec_run re content lastIndex []"
| exec_run_match:
    "re content lastIndex = Some (idx, len) \<Longrightarrow> exec_run re content (idx + len) spans
     \<Longrightarrow> exec_run re content lastIndex ((idx, len) # spans)"

text \<open>
  The window of a match: the content from 100 characters before the start of the match
  (or from its beginning) to 100 characters behind the end of the match (or to its end).
  A keyword is near the match when the lower-case form of the window contains the
  lower-case form of the keyword.
\<close>

definition context_window :: "jsstring \<Rightarrow> nat \<Rightarrow> nat \<Rightarrow> jsstring" where
  "context_window content idx len =
     take (min (length content) (idx + len + 100) - (idx - 100)) (drop (idx - 100) content)"

definition keyword_near ::
  "(jsstring \<Rightarrow> jsstring) \<Rightarrow> jsstring list \<Rightarrow> jsstring \<Rightarrow> nat \<Rightarrow> nat \<Rightarrow> bool" where
  "keyword_near toLowerCase ctxs content idx len =
     (\<exists>k\<in>set ctxs. js_includes (toLowerCase (context_window content idx len)) (toLowerCase k))"

text \<open>
  A keyword occurs case-insensitively in the content within the positions from \<open>lo\<close> up
  to, not including, \<open>hi\<close>: at some place of that window every character of the keyword
  equals the character of the content up to case, \<open>lc\<close> being the lower case of one
  character.
\<close>

definition occurs_ci :: "(nat \<Rightarrow> nat) \<Rightarrow> jsstring \<Rightarrow> jsstring \<Rightarrow> nat \<Rightarrow> nat \<Rightarrow> bool" where
  "occurs_ci lc keyword content lo hi =
     (\<exists>p. lo \<le> p \<and> p + length keyword \<le> hi
          \<and> (\<forall>j<length keyword. lc (content ! (p + j)) = lc (keyword ! j)))"

text \<open>
  The spans of a pattern that are kept: all of them when the pattern declares no keyword,
  and else those with a keyword near. The matches that a scan keeps are the kept spans of
  the patterns, in the order of the patterns, a pattern whose source does not compile
  having none; \<open>run\<close> gives the spans of each pattern.
\<close>

definition kept_spans ::
  "(jsstring \<Rightarrow> jsstring) \<Rightarrow> SecretPattern \<Rightarrow> jsstring \<Rightarrow> (nat \<times> nat) list \<Rightarrow> (nat \<times> nat) list" where
  "kept_spans toLowerCase pc content spans =
     filter (\<lambda>(idx, len). case sp_context pc of
                             None \<Rightarrow> True
                           | Some ctxs \<Rightarrow> ctxs = [] \<or> keyword_near toLowerCase ctxs content idx len)
       spans"

definition kept_matches ::
  "regexp_engine \<Rightarrow> (jsstring \<Rightarrow> jsstring) \<Rightarrow> jsstring \<Rightarrow> (SecretPattern \<Rightarrow> (nat \<times> nat) list)
     \<Rightarrow> SecretPattern list \<Rightarrow> (SecretPattern \<times> nat \<times> nat) list" where
  "kept_matches RegExp toLowerCase content run pats =
     concat (map (\<lambda>pc. case RegExp (sp_pattern pc) of
                          None \<Rightarrow> []
                        | Some re \<Rightarrow>
                            map (\<lambda>(idx, len). (pc, idx, len))
                              (kept_spans toLowerCase pc content (run pc))) pats)"

text \<open>
  An instance of the engine, for the examples: a source without metacharacters compiles to
  the expression that matches exactly that text, at its first occurrence from
  \<^verbatim>\<open>lastIndex\<close> on.
\<close>

fun first_occurrence :: "'a list \<Rightarrow> 'a list \<Rightarrow> nat option" where
  "first_occurrence needle [] = (if needle = [] then Some 0 else None)"
| "first_occurrence needle (c # cs) =
     (if js_startsWith (c # cs) needle then Some 0
      else map_option Suc (first_occurrence needle cs))"

definition literal_expression :: "jsstring \<Rightarrow> regexp" where
  "literal_expression source subject lastIndex =
     (if length subject < lastIndex then None
      else (case first_occurrence source (drop lastIndex subject) of
              None \<Rightarrow> None
            | Some p \<Rightarrow> Some (lastIndex + p, length source)))"

definition literal_regexp :: regexp_engine where
  "literal_regexp source = Some (literal_expression source)"

text \<open>
  An instance of \<^verbatim>\<open>toLowerCase\<close>, for the examples: the function of ECMAScript on the
  texts of code units below 256 and Greek sigmas (the capital 931, the final 962, the small
  963). A capital letter of Latin-1 moves up by 32. A capital sigma becomes the final sigma
  when a cased letter precedes it, with nothing but case-ignorable characters between
  them, and no cased letter follows it behind case-ignorable characters; it becomes the
  small sigma otherwise.
\<close>

definition lower_unit :: "nat \<Rightarrow> nat" where
  "lower_unit c = (if (65 \<le> c \<and> c \<le> 90) \<or> (192 \<le> c \<and> c \<le> 222 \<and> c \<noteq> 215) then c + 32 else c)"

definition cased_unit :: "nat \<Rightarrow> bool" where
  "cased_unit c =
     ((65 \<le> c \<and> c \<le> 90) \<or> (97 \<le> c \<and> c \<le> 122) \<or> c = 170 \<or> c = 181 \<or> c = 186
      \<or> (192 \<le> c \<and> c \<le> 214) \<or> (216 \<le> c \<and> c \<le> 246) \<or> (248 \<le> c \<and> c \<le> 255)
      \<or> c = 931 \<or> c = 962 \<or> c = 963)"

definition case_ignorable_unit :: "nat \<Rightarrow> bool" where
  "case_ignorable_unit c =
     (c = 39 \<or> c = 46 \<or> c = 58 \<or> c = 94 \<or> c = 96 \<or> c = 168 \<or> c = 173 \<or> c = 175 \<or> c = 180
      \<or> c = 183 \<or> c = 184)"

definition cased_ahead :: "jsstring \<Rightarrow> bool" where
  "cased_ahead cs =
     (case dropWhile case_ignorable_unit cs of [] \<Rightarrow> False | c # rest \<Rightarrow> cased_unit c)"

fun lower_from :: "bool \<Rightarrow> jsstring \<Rightarrow> jsstring" where
  "lower_from cased_before [] = []"
| "lower_from cased_before (c # cs) =
     (if c = 931 then (if cased_before \<and> \<not> cased_ahead cs then 962 else 963) else lower_unit c)
       # lower_from (if case_ignorable_unit c then cased_before else cased_unit c) cs"

definition example_toLowerCase :: "jsstring \<Rightarrow> jsstring" where
  "example_toLowerCase s = lower_from False s"

text \<open>The pattern of the context examples: a plain text with the keyword \<^verbatim>\<open>database\<close>.\<close>

definition example_pattern :: SecretPattern where
  "example_pattern =
     \<lparr> sp_name = str ''Secret'', sp_pattern = str ''secret = \"abcdefgh12345678\"'',
       sp_context = Some [str ''database''], sp_description = [] \<rparr>"

text \<open>
  The regular files the traversal encounters and does not ignore, in the order of the
  traversal, whatever their extension.
\<close>

fun encountered ::
  "regexp_engine \<Rightarrow> jsstring \<Rightarrow> SecretsConfig \<Rightarrow> jsstring \<Rightarrow> fsnode \<Rightarrow> jsstring list"
and encountered_entries ::
  "regexp_engine \<Rightarrow> jsstring \<Rightarrow> SecretsConfig \<Rightarrow> jsstring \<Rightarrow> (jsstring \<times> fsnode) list
     \<Rightarrow> jsstring list"
where
  "encountered RegExp ROOT_DIR config currentDir (Directory entries) =
     encountered_entries RegExp ROOT_DIR config currentDir entries"
| "encountered RegExp ROOT_DIR config currentDir RegularFile = []"
| "encountered RegExp ROOT_DIR config currentDir UnreadableDirectory = []"
| "encountered RegExp ROOT_DIR config currentDir OtherEntry = []"
| "encountered RegExp ROOT_DIR config currentDir StatFails = []"
| "encountered_entries RegExp ROOT_DIR config currentDir [] = []"
| "encountered_entries RegExp ROOT_DIR config currentDir ((entry, node) # rest) =
     (let fullPath = path_join currentDir entry
      in case shouldIgnore RegExp ROOT_DIR fullPath (ignorePatterns config) of
           None \<Rightarrow> []
         | Some True \<Rightarrow> encountered_entries RegExp ROOT_DIR config currentDir rest
         | Some False \<Rightarrow>
             (case node of
                StatFails \<Rightarrow> encountered_entries RegExp ROOT_DIR config currentDir rest
              | OtherEntry \<Rightarrow> encountered_entries RegExp ROOT_DIR config currentDir rest
              | RegularFile \<Rightarrow>
                  fullPath # encountered_entries RegExp ROOT_DIR config currentDir rest
              | _ \<Rightarrow>
                  (if \<not> js_startsWith entry (str ''.'') \<or> entry = str ''.config''
                   then encountered RegExp ROOT_DIR config fullPath node
                          @ encountered_entries RegExp ROOT_DIR config currentDir rest
                   else encountered_entries RegExp ROOT_DIR config currentDir rest)))"

text \<open>
  The traversal agrees with a list of files found: the files it adds are those of the
  list with a valid extension, and the count it adds is the length of the list.
\<close>

definition walk_agrees ::
  "(jsstring \<Rightarrow> jsstring) \<Rightarrow> SecretsConfig \<Rightarrow> walk_state \<Rightarrow> walk_state \<Rightarrow> jsstring list \<Rightarrow> bool" where
  "walk_agrees toLowerCase config st st' found =
     (files st' = files st @ filter (\<lambda>p. hasValidExtension toLowerCase p (fileExtensions config)) found
      \<and> scanned st' = scanned st + length found)"

text \<open>
  A second instance of the engine, for the examples of the traversal: the one source that
  \<^verbatim>\<open>minimatch\<close> compiles from the glob \<^verbatim>\<open>**/node_modules/**\<close>. On a subject of one
  line its first alternative matches the whole subject exactly when the subject contains
  \<^verbatim>\<open>/node_modules/\<close>, and no alternative matches otherwise.
\<close>

definition node_modules_source :: jsstring where
  "node_modules_source =
     str ''^.*/node_modules/.*$|/.*/node_modules/.*$|^.*/node_modules/.*/|/.*/node_modules/.*/''"

definition node_modules_regexp :: regexp_engine where
  "node_modules_regexp source =
     (if source = node_modules_source
      then Some (\<lambda>subject lastIndex.
             if js_includes subject (str ''/node_modules/'') then Some (0, length subject) else None)
      else None)"

definition example_config :: SecretsConfig where
  "example_config =
     \<lparr> patterns = [], ignorePatterns = [str ''**/node_modules/**''],
       fileExtensions = [str ''.json'', str ''.env''] \<rparr>"

definition example_tree :: fsnode where
  "example_tree =
     Directory
       [(str ''zed'', Directory
           [(str ''settings.json'', RegularFile),
            (str ''notes.txt'', RegularFile),
            (str ''node_modules'', Directory [(str ''package.json'', RegularFile)])]),
        (str ''.env.local'', RegularFile),
        (str ''.git'', Directory [(str ''config.json'', RegularFile)])]"

text \<open>
  What it is for a path to match a glob, as globs are read (the library the function
  \<^verbatim>\<open>minimatch\<close> is named after, and the example \<^verbatim>\<open>**/node_modules/**\<close> of the
  specification): the glob and the path are split at the separators; a portion
  \<^verbatim>\<open>**\<close> of the glob stands for any number of portions of the path, none included;
  any other portion of the glob matches one portion of the path, \<^verbatim>\<open>*\<close> standing for
  any characters and \<^verbatim>\<open>?\<close> for one character.
\<close>

fun glob_portion :: "jsstring \<Rightarrow> jsstring \<Rightarrow> bool" where
  "glob_portion [] name = (name = [])"
| "glob_portion (g # gs) [] = (g = 42 \<and> glob_portion gs [])"
| "glob_portion (g # gs) (c # cs) =
     (if g = 42 then glob_portion gs (c # cs) \<or> glob_portion (g # gs) cs
      else (g = 63 \<or> g = c) \<and> glob_portion gs cs)"

fun glob_portions :: "jsstring list \<Rightarrow> jsstring list \<Rightarrow> bool" where
  "glob_portions [] names = (names = [])"
| "glob_portions (g # gs) [] = (g = str ''**'' \<and> glob_portions gs [])"
| "glob_portions (g # gs) (name # names) =
     (if g = str ''**'' then glob_portions gs (name # names) \<or> glob_portions (g # gs) names
      else glob_portion g name \<and> glob_portions gs names)"

definition glob_match :: "jsstring \<Rightarrow> jsstring \<Rightarrow> bool" where
  "glob_match glob path = glob_portions (js_split 47 glob) (js_split 47 path)"

section \<open>Loading the configuration\<close>

text \<open>
  A JSON value; the type of a number and the type of a character of a string are
  parameters. The members of an object are in the order of enumeration. A value of the
  program has strings of code units.
\<close>

datatype ('c, 'n) json =
    JNull
  | JBool bool
  | JNum 'n
  | JStr "'c list"
  | JArr "('c, 'n) json list"
  | JObj "('c list \<times> ('c, 'n) json) list"

text \<open>
  What \<^verbatim>\<open>await Bun.file(configPath).json()\<close> does: it raises when there is no file
  and when the text of the file is not JSON, and else gives the value of the text.
\<close>

type_synonym 'n jsvalue = "(nat, 'n) json"

datatype 'v json_read = NoSuchFile | NotJSON | Parsed 'v

text \<open>The texts \<^verbatim>\<open>["']\<close> and \<^verbatim>\<open>\s*\<close> of the built-in patterns.\<close>

definition quote_class :: jsstring where
  "quote_class = str ''['' @ [34, 39] @ str '']''"

definition space_star :: jsstring where
  "space_star = [92] @ str ''s*''"

definition default_patterns :: "SecretPattern list" where
  "default_patterns =
     [\<lparr> sp_name = str ''Generic API Key'',
        sp_pattern = str ''[Aa][Pp][Ii][-_]?[Kk][Ee][Yy]'' @ quote_class @ str ''?'' @ space_star
          @ str ''[:=]''
          @ space_star @ quote_class @ str ''[A-Za-z0-9_-]{16,}'' @ quote_class,
        sp_context = None, sp_description = str ''Generic API Key pattern'' \<rparr>,
      \<lparr> sp_name = str ''Generic Secret'',
        sp_pattern = str ''[Ss][Ee][Cc][Rr][Ee][Tt]'' @ quote_class @ str ''?'' @ space_star
          @ str ''[:=]''
          @ space_star @ quote_class @ str ''[A-Za-z0-9_-]{8,}'' @ quote_class,
        sp_context = None, sp_description = str ''Generic Secret pattern'' \<rparr>,
      \<lparr> sp_name = str ''Generic Password'',
        sp_pattern = str ''[Pp][Aa][Ss][Ss][Ww][Oo][Rr][Dd]'' @ quote_class @ str ''?'' @ space_star
          @ str ''[:=]''
          @ space_star @ quote_class @ str ''[^'' @ [34, 39] @ str '']{4,}'' @ quote_class,
        sp_context = None, sp_description = str ''Generic Password pattern'' \<rparr>]"

text \<open>
  The object literal of the \<^verbatim>\<open>catch\<close> branch, as the value it is at run time.
\<close>

definition pattern_object :: "SecretPattern \<Rightarrow> 'n jsvalue" where
  "pattern_object p =
     JObj [(str ''name'', JStr (sp_name p)), (str ''pattern'', JStr (sp_pattern p)),
           (str ''description'', JStr (sp_description p))]"

definition default_config :: "'n jsvalue" where
  "default_config =
     JObj [(str ''patterns'', JArr (map pattern_object default_patterns)),
           (str ''ignorePatterns'',
              JArr [JStr (str ''**/node_modules/**''), JStr (str ''**/.git/**''),
                    JStr (str ''**/dist/**'')]),
           (str ''fileExtensions'',
              JArr [JStr (str ''.json''), JStr (str ''.yaml''), JStr (str ''.yml''),
                    JStr (str ''.toml''), JStr (str ''.env'')])]"

text \<open>
  \<^verbatim>\<open>loadConfig\<close> (lines 80-116). \<^verbatim>\<open>content as SecretsConfig\<close> is an assertion of
  the type checker only: the value is returned as it was read.
\<close>

definition loadConfig :: "'n jsvalue json_read \<Rightarrow> 'n jsvalue" where
  "loadConfig file =
     (case file of
        Parsed content \<Rightarrow> content
      | NoSuchFile \<Rightarrow> default_config
      | NotJSON \<Rightarrow> default_config)"

text \<open>
  The schema of the configuration file (section 6 of the specification): the typed
  configuration a value stands for, and \<^const>\<open>None\<close> for a value that does not match.
\<close>

fun as_string :: "'n jsvalue \<Rightarrow> jsstring option" where
  "as_string (JStr s) = Some s"
| "as_string _ = None"

fun all_some :: "'a option list \<Rightarrow> 'a list option" where
  "all_some [] = Some []"
| "all_some (None # xs) = None"
| "all_some (Some x # xs) = map_option (\<lambda>ys. x # ys) (all_some xs)"

fun as_string_list :: "'n jsvalue \<Rightarrow> jsstring list option" where
  "as_string_list (JArr vs) = all_some (map as_string vs)"
| "as_string_list _ = None"

fun as_SecretPattern :: "'n jsvalue \<Rightarrow> SecretPattern option" where
  "as_SecretPattern (JObj ms) =
     (case (map_of ms (str ''name''), map_of ms (str ''pattern''), map_of ms (str ''description'')) of
        (Some (JStr n), Some (JStr p), Some (JStr d)) \<Rightarrow>
          (case map_of ms (str ''context'') of
             None \<Rightarrow> Some \<lparr> sp_name = n, sp_pattern = p, sp_context = None, sp_description = d \<rparr>
           | Some c \<Rightarrow>
               (case as_string_list c of
                  None \<Rightarrow> None
                | Some ks \<Rightarrow>
                    Some \<lparr> sp_name = n, sp_pattern = p, sp_context = Some ks, sp_description = d \<rparr>))
      | _ \<Rightarrow> None)"
| "as_SecretPattern _ = None"

fun as_SecretsConfig :: "'n jsvalue \<Rightarrow> SecretsConfig option" where
  "as_SecretsConfig (JObj ms) =
     (case (map_of ms (str ''patterns''), map_of ms (str ''ignorePatterns''),
            map_of ms (str ''fileExtensions'')) of
        (Some (JArr ps), Some ig, Some ex) \<Rightarrow>
          (case (all_some (map as_SecretPattern ps), as_string_list ig, as_string_list ex) of
             (Some ps', Some ig', Some ex') \<Rightarrow>
               Some \<lparr> patterns = ps', ignorePatterns = ig', fileExtensions = ex' \<rparr>
           | _ \<Rightarrow> None)
      | _ \<Rightarrow> None)"
| "as_SecretsConfig _ = None"

section \<open>The lines of \<^verbatim>\<open>format.ts\<close>\<close>

text \<open>
  \<^verbatim>\<open>content.split(/\r?\n/)\<close>: the pieces between line feeds, a piece that a line feed
  follows losing one carriage return at its end.
\<close>

definition strip_cr :: "jsstring \<Rightarrow> jsstring" where
  "strip_cr piece = (if piece \<noteq> [] \<and> last piece = 13 then butlast piece else piece)"

definition split_lines :: "jsstring \<Rightarrow> jsstring list" where
  "split_lines content =
     (let pieces = js_split 10 content in map strip_cr (butlast pieces) @ [last pieces])"

section \<open>The JSONC formatter\<close>

text \<open>
  The regular expressions of \<^verbatim>\<open>formatJSONC\<close> (lines 31-102), each as the function it
  computes on a trimmed line. \<^verbatim>\<open>/^[}\]]/\<close>: the line starts with a closing brace or
  bracket. \<^verbatim>\<open>/[{\[]$/\<close>: it ends with an opening one. \<^verbatim>\<open>/\[.*\]/\<close> and
  \<^verbatim>\<open>/\{.*\}/\<close>: an opening character, any characters but line terminators, the
  closing character.
\<close>

definition startsWithClosing :: "jsstring \<Rightarrow> bool" where
  "startsWithClosing trimmed = (case trimmed of [] \<Rightarrow> False | c # cs \<Rightarrow> c = 125 \<or> c = 93)"

definition ends_with_opener :: "jsstring \<Rightarrow> bool" where
  "ends_with_opener trimmed = (trimmed \<noteq> [] \<and> (last trimmed = 123 \<or> last trimmed = 91))"

fun closes_after :: "nat \<Rightarrow> jsstring \<Rightarrow> bool" where
  "closes_after close [] = False"
| "closes_after close (c # cs) = (c = close \<or> (\<not> js_line_terminator c \<and> closes_after close cs))"

fun has_pair :: "nat \<Rightarrow> nat \<Rightarrow> jsstring \<Rightarrow> bool" where
  "has_pair opener close [] = False"
| "has_pair opener close (c # cs) =
     ((c = opener \<and> closes_after close cs) \<or> has_pair opener close cs)"

definition endsWithOpening :: "jsstring \<Rightarrow> bool" where
  "endsWithOpening trimmed =
     (ends_with_opener trimmed \<and> \<not> has_pair 91 93 trimmed \<and> \<not> has_pair 123 125 trimmed)"

text \<open>
  \<^verbatim>\<open>trimmed.match(/^(.+?)\s*(\/\/.*)$/)\<close>: the first group is the shortest non-empty
  prefix without a line terminator after which white space and then two slashes follow,
  with no line terminator from the slashes to the end; the second group is the text from
  the slashes on. \<open>inline_from code rest\<close> tries the prefix \<open>code\<close> and then the longer
  ones.
\<close>

fun inline_from :: "jsstring \<Rightarrow> jsstring \<Rightarrow> (jsstring \<times> jsstring) option" where
  "inline_from code [] = None"
| "inline_from code (c # cs) =
     (let comment = dropWhile js_space (c # cs)
      in if js_startsWith comment [47, 47] \<and> \<not> list_ex js_line_terminator comment
         then Some (code, comment)
         else if js_line_terminator c then None
         else inline_from (code @ [c]) cs)"

definition inlineCommentMatch :: "jsstring \<Rightarrow> (jsstring \<times> jsstring) option" where
  "inlineCommentMatch trimmed =
     (case trimmed of
        [] \<Rightarrow> None
      | c # cs \<Rightarrow> if js_line_terminator c then None else inline_from [c] cs)"

record jsonc_state =
  formattedLines :: "jsstring list"
  indentLevel :: int

definition indentStr :: jsstring where
  "indentStr = [32, 32]"

text \<open>
  The text a code line is pushed as, behind its indentation, and the body of the
  \<^verbatim>\<open>for\<close> loop. The two counts at the end of the loop body (lines 85-91) guard an
  empty block and change nothing. \<^const>\<open>None\<close> is the RangeError of \<^verbatim>\<open>repeat\<close>.
\<close>

definition code_line_text :: "jsstring \<Rightarrow> jsstring" where
  "code_line_text trimmed =
     (case inlineCommentMatch trimmed of
        Some (code, comment) \<Rightarrow> js_trim code @ [32] @ comment
      | None \<Rightarrow> trimmed)"

definition jsonc_line :: "jsstring \<Rightarrow> jsonc_state \<Rightarrow> jsonc_state option" where
  "jsonc_line line st =
     (let trimmed = js_trim line
      in if trimmed = [] then Some (st \<lparr> formattedLines := formattedLines st @ [[]] \<rparr>)
         else if js_startsWith trimmed [47, 47] \<or> js_startsWith trimmed [47, 42]
                 \<or> js_startsWith trimmed [42]
         then (case js_repeat indentStr (indentLevel st) of
                 None \<Rightarrow> None
               | Some ind \<Rightarrow> Some (st \<lparr> formattedLines := formattedLines st @ [ind @ trimmed] \<rparr>))
         else
           (let level = (if startsWithClosing trimmed then max 0 (indentLevel st - 1)
                         else indentLevel st)
            in case js_repeat indentStr level of
                 None \<Rightarrow> None
               | Some currentIndent \<Rightarrow>
                   Some \<lparr> formattedLines = formattedLines st @ [currentIndent @ code_line_text trimmed],
                          indentLevel = (if endsWithOpening trimmed then level + 1 else level) \<rparr>))"

fun jsonc_loop :: "jsstring list \<Rightarrow> jsonc_state \<Rightarrow> jsonc_state option" where
  "jsonc_loop [] st = Some st"
| "jsonc_loop (line # lines) st =
     (case jsonc_line line st of None \<Rightarrow> None | Some st' \<Rightarrow> jsonc_loop lines st')"

text \<open>
  \<^verbatim>\<open>output.replace(/\n+$/, '\n')\<close> replaces the line feeds at the end, when there is
  one, by a single line feed.
\<close>

definition collapse_final_newlines :: "jsstring \<Rightarrow> jsstring" where
  "collapse_final_newlines output =
     (let body = rev (dropWhile (\<lambda>c. c = 10) (rev output))
      in if length body < length output then body @ [10] else output)"

definition ensure_final_newline :: "jsstring \<Rightarrow> jsstring" where
  "ensure_final_newline output = (if js_endsWith output [10] then output else output @ [10])"

definition formatJSONC :: "jsstring \<Rightarrow> jsstring option" where
  "formatJSONC content =
     (case jsonc_loop (split_lines content) \<lparr> formattedLines = [], indentLevel = 0 \<rparr> of
        None \<Rightarrow> None
      | Some st \<Rightarrow>
          Some (ensure_final_newline (collapse_final_newlines (js_join [10] (formattedLines st)))))"

section \<open>The TOML formatter\<close>

text \<open>\<^verbatim>\<open>formatTOML\<close> (lines 165-201): the callback of \<^verbatim>\<open>map\<close>, the loop that drops
  an empty line after an empty line, and the final line feed.\<close>

definition toml_line :: "jsstring \<Rightarrow> jsstring" where
  "toml_line line =
     (let formatted = js_trimEnd line
      in if 61 \<in> set formatted \<and> \<not> js_startsWith (js_trim formatted) [35]
         then (case js_split 61 formatted of
                 [] \<Rightarrow> formatted
               | key # valueParts \<Rightarrow>
                   (let v = js_join [61] valueParts
                    in if key \<noteq> [] then js_trimEnd key @ [32, 61, 32] @ js_trimStart v
                       else formatted))
         else formatted)"

fun drop_repeated_empty :: "bool \<Rightarrow> jsstring list \<Rightarrow> jsstring list" where
  "drop_repeated_empty prevEmpty [] = []"
| "drop_repeated_empty prevEmpty (line # lines) =
     (let isEmpty = (js_trim line = [])
      in if isEmpty \<and> prevEmpty then drop_repeated_empty prevEmpty lines
         else line # drop_repeated_empty isEmpty lines)"

definition formatTOML :: "jsstring \<Rightarrow> jsstring" where
  "formatTOML content =
     (let lines = split_lines content;
          formattedLines = map toml_line lines;
          result = drop_repeated_empty False formattedLines
      in ensure_final_newline (js_join [10] result))"

definition formatYAML :: "jsstring \<Rightarrow> jsstring" where
  "formatYAML content =
     (let lines = split_lines content;
          formattedLines = map js_trimEnd lines;
          result = drop_repeated_empty False formattedLines
      in ensure_final_newline (js_join [10] result))"

text \<open>
  The words of the specification on a trimmed line: it is comment-only when it begins with
  two slashes, a slash and a star, or a star; closing-prefixed when it begins with a closing
  brace or bracket; it has a same-line pair when an opening bracket (or brace) is followed
  by its closing one with no line terminator between them; it opens a block when it ends
  with an opening brace or bracket and has no same-line pair.
\<close>

definition comment_only :: "jsstring \<Rightarrow> bool" where
  "comment_only t = (\<exists>rest. t = [47, 47] @ rest \<or> t = [47, 42] @ rest \<or> t = [42] @ rest)"

definition closing_prefixed :: "jsstring \<Rightarrow> bool" where
  "closing_prefixed t = (\<exists>rest. t = 125 # rest \<or> t = 93 # rest)"

definition same_line_pair :: "nat \<Rightarrow> nat \<Rightarrow> jsstring \<Rightarrow> bool" where
  "same_line_pair opener close t =
     (\<exists>i j. i < j \<and> j < length t \<and> t ! i = opener \<and> t ! j = close
            \<and> (\<forall>k. i < k \<and> k < j \<longrightarrow> \<not> js_line_terminator (t ! k)))"

definition opens_block :: "jsstring \<Rightarrow> bool" where
  "opens_block t =
     (t \<noteq> [] \<and> (last t = 123 \<or> last t = 91)
      \<and> \<not> same_line_pair 91 93 t \<and> \<not> same_line_pair 123 125 t)"

text \<open>
  The depth line by line, in the words of the specification, the depth being a natural
  number that starts at 0. A closing-prefixed line is emitted one level lower (not below
  0), any other line at the current depth; a blank line and a comment-only line leave
  the depth as it is, and behind any other line the depth is the depth of that line, one
  more when the line opens a block. A blank line is emitted empty, a comment-only line
  as its trimmed text, any other line as the text of \<^const>\<open>code_line_text\<close>, behind two
  spaces for each level.
\<close>

definition emit_depth :: "nat \<Rightarrow> jsstring \<Rightarrow> nat" where
  "emit_depth d t = (if closing_prefixed t then d - 1 else d)"

definition depth_after :: "nat \<Rightarrow> jsstring \<Rightarrow> nat" where
  "depth_after d t =
     (if t = [] \<or> comment_only t then d
      else if opens_block t then emit_depth d t + 1 else emit_depth d t)"

definition emitted_line :: "nat \<Rightarrow> jsstring \<Rightarrow> jsstring" where
  "emitted_line d t =
     (if t = [] then []
      else replicate (2 * emit_depth d t) 32 @ (if comment_only t then t else code_line_text t))"

fun emitted :: "nat \<Rightarrow> jsstring list \<Rightarrow> jsstring list" where
  "emitted d [] = []"
| "emitted d (line # lines) =
     emitted_line d (js_trim line) # emitted (depth_after d (js_trim line)) lines"

fun final_depth :: "nat \<Rightarrow> jsstring list \<Rightarrow> nat" where
  "final_depth d [] = d"
| "final_depth d (line # lines) = final_depth (depth_after d (js_trim line)) lines"

text \<open>A line has no trailing white space when it is empty or its last character is not white space.\<close>

definition no_trailing_space :: "jsstring \<Rightarrow> bool" where
  "no_trailing_space line = (line = [] \<or> \<not> js_space (last line))"

section \<open>JSON.parse and JSON.stringify\<close>

text \<open>
  The two functions of the runtime that \<^verbatim>\<open>formatPureJSON\<close> calls, after ECMA-262 and
  ECMA-404. A number is a value of the type \<open>'n\<close>; the value of a number literal and
  the text of a number (\<^const>\<open>None\<close> for a number that is not finite, which
  \<^verbatim>\<open>JSON.stringify\<close> writes as \<^verbatim>\<open>null\<close>) are parameters of the model.
\<close>


subsection \<open>Tokens\<close>

definition json_ws :: "nat \<Rightarrow> bool" where
  "json_ws c = (c = 32 \<or> c = 9 \<or> c = 10 \<or> c = 13)"

definition skip_ws :: "jsstring \<Rightarrow> jsstring" where
  "skip_ws s = dropWhile json_ws s"

definition is_digit :: "nat \<Rightarrow> bool" where
  "is_digit c = (48 \<le> c \<and> c \<le> 57)"

definition hex_value :: "nat \<Rightarrow> nat option" where
  "hex_value c =
     (if 48 \<le> c \<and> c \<le> 57 then Some (c - 48)
      else if 97 \<le> c \<and> c \<le> 102 then Some (c - 87)
      else if 65 \<le> c \<and> c \<le> 70 then Some (c - 55)
      else None)"

definition hex4 :: "nat \<Rightarrow> nat \<Rightarrow> nat \<Rightarrow> nat \<Rightarrow> nat option" where
  "hex4 a b c d =
     (case (hex_value a, hex_value b, hex_value c, hex_value d) of
        (Some x, Some y, Some z, Some w) \<Rightarrow> Some (((x * 16 + y) * 16 + z) * 16 + w)
      | _ \<Rightarrow> None)"

text \<open>The character after a backslash: quote, backslash, slash, b, f, n, r, t.\<close>

definition unescape :: "nat \<Rightarrow> nat option" where
  "unescape e =
     (if e = 34 then Some 34 else if e = 92 then Some 92 else if e = 47 then Some 47
      else if e = 98 then Some 8 else if e = 102 then Some 12 else if e = 110 then Some 10
      else if e = 114 then Some 13 else if e = 116 then Some 9 else None)"

text \<open>A string behind its opening quote: the code units it denotes and the text behind
  its closing quote.\<close>

fun lex_string :: "jsstring \<Rightarrow> (jsstring \<times> jsstring) option" where
  "lex_string [] = None"
| "lex_string (c # cs) =
     (if c = 34 then Some ([], cs)
      else if c = 92 then
        (case cs of
           [] \<Rightarrow> None
         | e # rest \<Rightarrow>
             if e = 117 then
               (case rest of
                  a # b # c' # d # rest' \<Rightarrow>
                    (case hex4 a b c' d of
                       None \<Rightarrow> None
                     | Some u \<Rightarrow>
                         (case lex_string rest' of
                            None \<Rightarrow> None
                          | Some (x, r) \<Rightarrow> Some (u # x, r)))
                | _ \<Rightarrow> None)
             else
               (case unescape e of
                  None \<Rightarrow> None
                | Some u \<Rightarrow>
                    (case lex_string rest of
                       None \<Rightarrow> None
                     | Some (x, r) \<Rightarrow> Some (u # x, r))))
      else if c < 32 then None
      else (case lex_string cs of None \<Rightarrow> None | Some (x, r) \<Rightarrow> Some (c # x, r)))"

text \<open>A number: the text of the literal and the text behind it.\<close>

definition lex_int :: "jsstring \<Rightarrow> (jsstring \<times> jsstring) option" where
  "lex_int s =
     (case s of
        [] \<Rightarrow> None
      | c # r \<Rightarrow>
          if c = 48 then Some ([48], r)
          else if 49 \<le> c \<and> c \<le> 57 then Some (c # takeWhile is_digit r, dropWhile is_digit r)
          else None)"

definition lex_frac :: "jsstring \<Rightarrow> (jsstring \<times> jsstring) option" where
  "lex_frac s =
     (case s of
        [] \<Rightarrow> Some ([], [])
      | c # r \<Rightarrow>
          if c = 46 then
            (if takeWhile is_digit r = [] then None
             else Some (46 # takeWhile is_digit r, dropWhile is_digit r))
          else Some ([], s))"

definition lex_exp :: "jsstring \<Rightarrow> (jsstring \<times> jsstring) option" where
  "lex_exp s =
     (case s of
        [] \<Rightarrow> Some ([], [])
      | c # r \<Rightarrow>
          if c = 101 \<or> c = 69 then
            (let (sg, r1) = (case r of
                               [] \<Rightarrow> ([], r)
                             | d # r' \<Rightarrow> if d = 43 \<or> d = 45 then ([d], r') else ([], r))
             in if takeWhile is_digit r1 = [] then None
                else Some (c # sg @ takeWhile is_digit r1, dropWhile is_digit r1))
          else Some ([], s))"

definition lex_number :: "jsstring \<Rightarrow> (jsstring \<times> jsstring) option" where
  "lex_number s =
     (let (sg, s1) = (case s of [] \<Rightarrow> ([], s) | c # r \<Rightarrow> if c = 45 then ([45], r) else ([], s))
      in case lex_int s1 of
           None \<Rightarrow> None
         | Some (ip, s2) \<Rightarrow>
             (case lex_frac s2 of
                None \<Rightarrow> None
              | Some (fp, s3) \<Rightarrow>
                  (case lex_exp s3 of
                     None \<Rightarrow> None
                   | Some (ep, s4) \<Rightarrow> Some (sg @ ip @ fp @ ep, s4))))"

definition json_number :: "jsstring \<Rightarrow> bool" where
  "json_number t = (lex_number t = Some (t, []))"

subsection \<open>Objects\<close>

text \<open>
  The keys of an object are enumerated array indices first, in ascending order, then the
  other keys in the order of their creation. An array index is a canonical numeric string
  (the text of its own value) below 2^32 - 1. \<^verbatim>\<open>CreateDataProperty\<close> on a key the object
  has replaces the value and keeps the place.
\<close>

fun decimal :: "nat \<Rightarrow> jsstring" where
  "decimal n = (if n < 10 then [48 + n] else decimal (n div 10) @ [48 + n mod 10])"

definition index_value :: "jsstring \<Rightarrow> nat" where
  "index_value k = foldl (\<lambda>a c. 10 * a + (c - 48)) 0 k"

definition is_array_index :: "jsstring \<Rightarrow> bool" where
  "is_array_index k =
     (k \<noteq> [] \<and> list_all is_digit k \<and> decimal (index_value k) = k \<and> index_value k < 4294967295)"

fun insert_index :: "jsstring \<Rightarrow> 'v \<Rightarrow> (jsstring \<times> 'v) list \<Rightarrow> (jsstring \<times> 'v) list" where
  "insert_index k v [] = [(k, v)]"
| "insert_index k v ((k', v') # rest) =
     (if is_array_index k' \<and> index_value k' < index_value k
      then (k', v') # insert_index k v rest
      else (k, v) # (k', v') # rest)"

definition obj_put :: "jsstring \<Rightarrow> 'v \<Rightarrow> (jsstring \<times> 'v) list \<Rightarrow> (jsstring \<times> 'v) list" where
  "obj_put k v members =
     (if k \<in> fst ` set members
      then map (\<lambda>(k', v'). if k' = k then (k', v) else (k', v')) members
      else if is_array_index k then insert_index k v members
      else members @ [(k, v)])"

subsection \<open>JSON.parse\<close>

text \<open>
  A recursive descent over the grammar of ECMA-404. Each call takes one unit of fuel; a
  text of \<open>n\<close> code units never needs more than \<open>2 * n + 1\<close>, so \<open>OutOfFuel\<close> is not
  a result of \<open>JSON_parse\<close> (lemma \<open>JSON_parse_fuel\<close> below).
\<close>

datatype 'a parse = Ok 'a | SyntaxError | OutOfFuel

fun parse_value :: "(jsstring \<Rightarrow> 'n) \<Rightarrow> nat \<Rightarrow> jsstring \<Rightarrow> ('n jsvalue \<times> jsstring) parse"
and parse_elements ::
  "(jsstring \<Rightarrow> 'n) \<Rightarrow> nat \<Rightarrow> jsstring \<Rightarrow> 'n jsvalue list \<Rightarrow> ('n jsvalue \<times> jsstring) parse"
and parse_members ::
  "(jsstring \<Rightarrow> 'n) \<Rightarrow> nat \<Rightarrow> jsstring \<Rightarrow> (jsstring \<times> 'n jsvalue) list
     \<Rightarrow> ('n jsvalue \<times> jsstring) parse"
where
  "parse_value nl 0 s = OutOfFuel"
| "parse_value nl (Suc f) s =
     (case s of
        [] \<Rightarrow> SyntaxError
      | c # cs \<Rightarrow>
          if c = 123 then
            (case skip_ws cs of
               [] \<Rightarrow> SyntaxError
             | d # rest \<Rightarrow> if d = 125 then Ok (JObj [], rest)
                           else parse_members nl f (d # rest) [])
          else if c = 91 then
            (case skip_ws cs of
               [] \<Rightarrow> SyntaxError
             | d # rest \<Rightarrow> if d = 93 then Ok (JArr [], rest)
                           else parse_elements nl f (d # rest) [])
          else if c = 34 then
            (case lex_string cs of
               None \<Rightarrow> SyntaxError
             | Some (x, rest) \<Rightarrow> Ok (JStr x, rest))
          else if js_startsWith s [116, 114, 117, 101] then Ok (JBool True, drop 4 s)
          else if js_startsWith s [102, 97, 108, 115, 101] then Ok (JBool False, drop 5 s)
          else if js_startsWith s [110, 117, 108, 108] then Ok (JNull, drop 4 s)
          else
            (case lex_number s of
               None \<Rightarrow> SyntaxError
             | Some (lit, rest) \<Rightarrow> Ok (JNum (nl lit), rest)))"
| "parse_elements nl 0 s acc = OutOfFuel"
| "parse_elements nl (Suc f) s acc =
     (case parse_value nl f s of
        SyntaxError \<Rightarrow> SyntaxError
      | OutOfFuel \<Rightarrow> OutOfFuel
      | Ok (v, rest) \<Rightarrow>
          (case skip_ws rest of
             [] \<Rightarrow> SyntaxError
           | d # rest' \<Rightarrow>
               if d = 44 then parse_elements nl f (skip_ws rest') (acc @ [v])
               else if d = 93 then Ok (JArr (acc @ [v]), rest')
               else SyntaxError))"
| "parse_members nl 0 s acc = OutOfFuel"
| "parse_members nl (Suc f) s acc =
     (case s of
        [] \<Rightarrow> SyntaxError
      | q # cs \<Rightarrow>
          if q \<noteq> 34 then SyntaxError
          else
            (case lex_string cs of
               None \<Rightarrow> SyntaxError
             | Some (k, rest) \<Rightarrow>
                 (case skip_ws rest of
                    [] \<Rightarrow> SyntaxError
                  | colon # rest1 \<Rightarrow>
                      if colon \<noteq> 58 then SyntaxError
                      else
                        (case parse_value nl f (skip_ws rest1) of
                           SyntaxError \<Rightarrow> SyntaxError
                         | OutOfFuel \<Rightarrow> OutOfFuel
                         | Ok (v, rest2) \<Rightarrow>
                             (case skip_ws rest2 of
                                [] \<Rightarrow> SyntaxError
                              | d # rest3 \<Rightarrow>
                                  if d = 44 then parse_members nl f (skip_ws rest3) (obj_put k v acc)
                                  else if d = 125 then Ok (JObj (obj_put k v acc), rest3)
                                  else SyntaxError)))))"

definition JSON_parse :: "(jsstring \<Rightarrow> 'n) \<Rightarrow> jsstring \<Rightarrow> 'n jsvalue option" where
  "JSON_parse nl text =
     (case parse_value nl (2 * length text + 1) (skip_ws text) of
        Ok (v, rest) \<Rightarrow> if skip_ws rest = [] then Some v else None
      | SyntaxError \<Rightarrow> None
      | OutOfFuel \<Rightarrow> None)"

subsection \<open>JSON.stringify with an indentation of two spaces\<close>

definition hex_digit :: "nat \<Rightarrow> nat" where
  "hex_digit d = (if d < 10 then 48 + d else 87 + d)"

definition unicode_escape :: "nat \<Rightarrow> jsstring" where
  "unicode_escape c =
     [92, 117, hex_digit (c div 4096 mod 16), hex_digit (c div 256 mod 16),
      hex_digit (c div 16 mod 16), hex_digit (c mod 16)]"

definition lead_surrogate :: "nat \<Rightarrow> bool" where
  "lead_surrogate c = (55296 \<le> c \<and> c \<le> 56319)"

definition trail_surrogate :: "nat \<Rightarrow> bool" where
  "trail_surrogate c = (56320 \<le> c \<and> c \<le> 57343)"

definition quote_unit :: "nat \<Rightarrow> jsstring" where
  "quote_unit c =
     (if c = 8 then [92, 98] else if c = 9 then [92, 116] else if c = 10 then [92, 110]
      else if c = 12 then [92, 102] else if c = 13 then [92, 114]
      else if c = 34 then [92, 34] else if c = 92 then [92, 92]
      else if c < 32 \<or> lead_surrogate c \<or> trail_surrogate c then unicode_escape c
      else [c])"

text \<open>\<^verbatim>\<open>QuoteJSONString\<close>: a surrogate pair is written as it is, a lone surrogate as an
  escape.\<close>

fun quote_units :: "jsstring \<Rightarrow> jsstring" where
  "quote_units [] = []"
| "quote_units [c] = quote_unit c"
| "quote_units (c # d # cs) =
     (if lead_surrogate c \<and> trail_surrogate d then c # d # quote_units cs
      else quote_unit c @ quote_units (d # cs))"

definition QuoteJSONString :: "jsstring \<Rightarrow> jsstring" where
  "QuoteJSONString s = [34] @ quote_units s @ [34]"

fun serialize :: "('n \<Rightarrow> jsstring option) \<Rightarrow> jsstring \<Rightarrow> 'n jsvalue \<Rightarrow> jsstring" where
  "serialize ns ind JNull = [110, 117, 108, 108]"
| "serialize ns ind (JBool b) = (if b then [116, 114, 117, 101] else [102, 97, 108, 115, 101])"
| "serialize ns ind (JNum n) = (case ns n of None \<Rightarrow> [110, 117, 108, 108] | Some t \<Rightarrow> t)"
| "serialize ns ind (JStr s) = QuoteJSONString s"
| "serialize ns ind (JArr vs) =
     (if vs = [] then [91, 93]
      else [91, 10] @ (ind @ [32, 32])
           @ js_join ([44, 10] @ (ind @ [32, 32])) (map (serialize ns (ind @ [32, 32])) vs)
           @ [10] @ ind @ [93])"
| "serialize ns ind (JObj ms) =
     (if ms = [] then [123, 125]
      else [123, 10] @ (ind @ [32, 32])
           @ js_join ([44, 10] @ (ind @ [32, 32]))
               (map (\<lambda>(k, v). QuoteJSONString k @ [58, 32] @ serialize ns (ind @ [32, 32]) v) ms)
           @ [10] @ ind @ [125])"

definition JSON_stringify :: "('n \<Rightarrow> jsstring option) \<Rightarrow> 'n jsvalue \<Rightarrow> jsstring" where
  "JSON_stringify ns v = serialize ns [] v"

section \<open>The JSON formatter\<close>

text \<open>
  \<^verbatim>\<open>formatPureJSON\<close> (lines 107-110), \<^const>\<open>None\<close> being the SyntaxError of
  \<^verbatim>\<open>JSON.parse\<close>, and \<^verbatim>\<open>formatJSON\<close> (lines 115-130). The two tests of
  \<^verbatim>\<open>hasComments\<close>: \<^verbatim>\<open>/^\s*\/\/|\/\*/\<close> matches a text that begins, after white
  space, with two slashes, and a text that contains a slash and a star anywhere;
  \<^verbatim>\<open>/[^:"]\/\//\<close> matches two slashes behind a character that is neither a colon nor
  a double quote.
\<close>

definition formatPureJSON ::
  "(jsstring \<Rightarrow> 'n) \<Rightarrow> ('n \<Rightarrow> jsstring option) \<Rightarrow> jsstring \<Rightarrow> jsstring option" where
  "formatPureJSON nl ns content =
     (case JSON_parse nl content of
        None \<Rightarrow> None
      | Some parsed \<Rightarrow> Some (JSON_stringify ns parsed @ [10]))"

fun slashes_behind_other :: "jsstring \<Rightarrow> bool" where
  "slashes_behind_other [] = False"
| "slashes_behind_other (c # cs) =
     ((c \<noteq> 58 \<and> c \<noteq> 34 \<and> js_startsWith cs [47, 47]) \<or> slashes_behind_other cs)"

definition hasComments :: "jsstring \<Rightarrow> bool" where
  "hasComments content =
     ((js_startsWith (dropWhile js_space content) [47, 47] \<or> js_includes content [47, 42])
      \<or> slashes_behind_other content)"

definition formatJSON ::
  "(jsstring \<Rightarrow> 'n) \<Rightarrow> ('n \<Rightarrow> jsstring option) \<Rightarrow> jsstring \<Rightarrow> jsstring option" where
  "formatJSON nl ns content =
     (if hasComments content then formatJSONC content
      else (case formatPureJSON nl ns content of
              Some out \<Rightarrow> Some out
            | None \<Rightarrow> formatJSONC content))"

text \<open>
  The words of the specification on the routing. A line begins with a comment when,
  after its leading white space, it begins with two slashes or with a slash and a star.
  \<open>slashes_not_behind_quote\<close> finds two slashes that a quote character, double or
  single, does not immediately precede, the flag saying whether the character before is a
  quote. A content is comment-free as specified when no line of it begins with a comment
  and it has no such slashes.
\<close>

definition line_begins_comment :: "jsstring \<Rightarrow> bool" where
  "line_begins_comment l =
     (js_startsWith (dropWhile js_space l) [47, 47] \<or> js_startsWith (dropWhile js_space l) [47, 42])"

fun slashes_not_behind_quote :: "bool \<Rightarrow> jsstring \<Rightarrow> bool" where
  "slashes_not_behind_quote q [] = False"
| "slashes_not_behind_quote q (c # cs) =
     ((\<not> q \<and> js_startsWith (c # cs) [47, 47]) \<or> slashes_not_behind_quote (c = 34 \<or> c = 39) cs)"

definition comment_free_as_specified :: "jsstring \<Rightarrow> bool" where
  "comment_free_as_specified content =
     (\<not> list_ex line_begins_comment (js_split 10 content) \<and> \<not> slashes_not_behind_quote False content)"

text \<open>
  What the dispatcher takes for a comment, by positions: two slashes with nothing but
  white space before them, a slash and a star anywhere, or two slashes behind a character
  that is neither a colon (58) nor a double quote (34).
\<close>

definition comment_bearing :: "jsstring \<Rightarrow> bool" where
  "comment_bearing s =
     ((\<exists>i. i + 1 < length s \<and> s ! i = 47 \<and> s ! (i + 1) = 47 \<and> (\<forall>k<i. js_space (s ! k)))
      \<or> (\<exists>i. i + 1 < length s \<and> s ! i = 47 \<and> s ! (i + 1) = 42)
      \<or> (\<exists>i. i + 2 < length s \<and> s ! i \<noteq> 58 \<and> s ! i \<noteq> 34 \<and> s ! (i + 1) = 47 \<and> s ! (i + 2) = 47))"

section \<open>Notions for the round trip of \<^verbatim>\<open>JSON.stringify\<close> and \<^verbatim>\<open>JSON.parse\<close>\<close>

text \<open>
  A text may follow a number literal when it does not go on with a digit, a point or an
  exponent mark: then the lexer stops where the literal ends.
\<close>

definition follow_ok :: "jsstring \<Rightarrow> bool" where
  "follow_ok rest =
     (case rest of [] \<Rightarrow> True | c # cs \<Rightarrow> \<not> is_digit c \<and> c \<noteq> 46 \<and> c \<noteq> 101 \<and> c \<noteq> 69)"

text \<open>
  The keys of an object built by \<^const>\<open>obj_put\<close> are distinct, the array indices come first
  and ascend. A value is canonical when all its objects have such keys: these are the values
  that \<^verbatim>\<open>JSON.parse\<close> returns.
\<close>

definition key_before :: "jsstring \<Rightarrow> jsstring \<Rightarrow> bool" where
  "key_before a b = (is_array_index b \<longrightarrow> is_array_index a \<and> index_value a < index_value b)"

definition canonical_keys :: "jsstring list \<Rightarrow> bool" where
  "canonical_keys ks = (distinct ks \<and> sorted_wrt key_before ks)"

fun canonical :: "'n jsvalue \<Rightarrow> bool" where
  "canonical (JArr vs) = (\<forall>v\<in>set vs. canonical v)"
| "canonical (JObj ms) = (canonical_keys (map fst ms) \<and> (\<forall>m\<in>set ms. canonical (snd m)))"
| "canonical v = True"

text \<open>
  The value read back from the text of a value: a number becomes the value of its own text,
  and \<^verbatim>\<open>null\<close> when it is not finite.
\<close>

fun renorm :: "(jsstring \<Rightarrow> 'n) \<Rightarrow> ('n \<Rightarrow> jsstring option) \<Rightarrow> 'n jsvalue \<Rightarrow> 'n jsvalue" where
  "renorm nl ns (JNum n) = (case ns n of None \<Rightarrow> JNull | Some t \<Rightarrow> JNum (nl t))"
| "renorm nl ns (JArr vs) = JArr (map (renorm nl ns) vs)"
| "renorm nl ns (JObj ms) = JObj (map (\<lambda>m. (fst m, renorm nl ns (snd m))) ms)"
| "renorm nl ns v = v"

text \<open>
  The two facts of ECMAScript about the conversions of numbers that the formatter relies on:
  \<^verbatim>\<open>Number::toString\<close> of a finite number is a JSON number literal, and reading that
  literal and printing it again gives the same text.
\<close>

definition number_texts :: "('n \<Rightarrow> jsstring option) \<Rightarrow> bool" where
  "number_texts ns = (\<forall>n t. ns n = Some t \<longrightarrow> json_number t)"

definition number_round_trip :: "(jsstring \<Rightarrow> 'n) \<Rightarrow> ('n \<Rightarrow> jsstring option) \<Rightarrow> bool" where
  "number_round_trip nl ns = (\<forall>n t. ns n = Some t \<longrightarrow> ns (nl t) = Some t)"

text \<open>The first character of the text of a value.\<close>

definition value_start :: "nat \<Rightarrow> bool" where
  "value_start c = (c = 110 \<or> c = 116 \<or> c = 102 \<or> c = 34 \<or> c = 91 \<or> c = 123 \<or> c = 45 \<or> is_digit c)"

text \<open>
  A small number system with both facts: the natural numbers, written in decimal, and one
  more value, not finite, for every other literal.
\<close>

definition example_nl :: "jsstring \<Rightarrow> nat option" where
  "example_nl lit = (if list_all is_digit lit then Some (index_value lit) else None)"

definition example_ns :: "nat option \<Rightarrow> jsstring option" where
  "example_ns n = map_option decimal n"

section \<open>Properties\<close>

lemma concat_replicate_single: "concat (replicate n [c]) = replicate n c"
  by (induction n) simp_all

lemma js_repeat_char: "0 \<le> k \<Longrightarrow> js_repeat [c] k = Some (replicate (nat k) c)"
  by (simp add: js_repeat_def concat_replicate_single)

lemma js_slice_prefix: "0 \<le> k \<Longrightarrow> js_slice s 0 k = take (nat k) s"
  by (simp add: js_slice_def Let_def min_def)

lemma js_slice_from_suffix:
  "0 < k \<Longrightarrow> k \<le> int (length s) \<Longrightarrow> js_slice_from s (- k) = drop (length s - nat k) s"
  by (simp add: js_slice_from_def js_slice_def Let_def max_def nat_diff_distrib)

lemma str_star: "str ''*'' = [42]"
  by (simp add: str_def)

text \<open>
  C1 (as amended). For every input the masking function returns a value. Up to length 8
  the value is as many asterisks (the code unit 42) as the input has characters; beyond
  that it is the first four characters, then min(length - 8, 16) asterisks, then the last
  four characters. The 8-character instance of the specification is fully masked, and the
  21-character instance keeps 1234 and its last four characters 8901 around 13 asterisks.
\<close>

theorem maskSecret_rule:
  "maskSecret v =
     Some (if length v \<le> 8 then replicate (length v) 42
           else take 4 v @ replicate (min (length v - 8) 16) 42 @ drop (length v - 4) v)
   \<and> maskSecret (str ''abcd1234'') = Some (str ''********'')
   \<and> maskSecret (str ''123456789012345678901'')
       = Some (str ''1234'' @ replicate 13 42 @ str ''8901'')"
proof -
  have general: "maskSecret v =
     Some (if length v \<le> 8 then replicate (length v) 42
           else take 4 v @ replicate (min (length v - 8) 16) 42 @ drop (length v - 4) v)"
    for v :: jsstring
  proof (cases "length v \<le> 8")
    case True
    then show ?thesis by (simp add: maskSecret_def str_star js_repeat_char)
  next
    case False
    then have mid: "js_repeat [42 :: nat] (min (int (length v) - 8) 16)
        = Some (replicate (min (length v - 8) 16) 42)"
      by (subst js_repeat_char) (auto simp: min_def)
    have "js_slice_from v (- 4) = drop (length v - 4) v"
      using False js_slice_from_suffix [of 4 v] by simp
    with False mid show ?thesis
      by (simp add: maskSecret_def str_star js_slice_prefix)
  qed
  have a: "maskSecret (str ''abcd1234'') = Some (str ''********'')"
    by (simp add: general str_def)
  have b: "maskSecret (str ''123456789012345678901'')
      = Some (str ''1234'' @ replicate 13 42 @ str ''8901'')"
    by (simp add: general str_def eval_nat_numeral)
  from general a b show ?thesis by blast
qed

theorem maskSecret_rule_witness:
  "maskSecret [] = Some [] \<and> maskSecret (str ''0123456789abcdef0123456789abcdef'')
     = Some (str ''0123****************cdef'')"
  using maskSecret_rule [of "[]"] maskSecret_rule [of "str ''0123456789abcdef0123456789abcdef''"]
  by (simp add: str_def)

text \<open>
  The 21-character instance as the specification words it, with 7890 as the visible end,
  is not what the function returns: the last four characters of 123456789012345678901
  are 8901.
\<close>

theorem maskSecret_instance_counterexample:
  "maskSecret (str ''123456789012345678901'')
     \<noteq> Some (str ''1234'' @ replicate 13 42 @ str ''7890'')"
  by (simp add: maskSecret_def js_repeat_def js_slice_def js_slice_from_def str_def
      eval_nat_numeral)

lemma js_split_nonempty: "js_split sep s \<noteq> []"
  by (induction s) (auto split: list.splits)

lemma length_js_split: "length (js_split sep s) = length (filter (\<lambda>c. c = sep) s) + 1"
  by (induction s) (auto split: list.splits simp: js_split_nonempty)

lemma js_split_append_sep: "js_split sep (a @ sep # b) = js_split sep a @ js_split sep b"
  by (induction a) (auto split: list.splits simp: js_split_nonempty)

lemma js_split_no_sep: "sep \<notin> set s \<Longrightarrow> js_split sep s = [s]"
  by (induction s) auto

lemma last_js_split_after:
  "sep \<notin> set b \<Longrightarrow> last (js_split sep (a @ sep # b)) = b"
  by (simp add: js_split_append_sep js_split_no_sep)

lemma getLineContext_line:
  "fst (getLineContext content i) = length (filter (\<lambda>c. c = 10) (take i content)) + 1"
  by (simp add: getLineContext_def Let_def js_slice_prefix length_js_split)

lemma getLineContext_column_first:
  assumes "\<forall>j<i. content ! j \<noteq> 10" and "i \<le> length content"
  shows "fst (snd (getLineContext content i)) = i + 1"
proof -
  have "10 \<notin> set (take i content)"
    using assms by (auto simp: in_set_conv_nth)
  then have "js_split 10 (take i content) = [take i content]"
    by (rule js_split_no_sep)
  with assms(2) show ?thesis
    by (simp add: getLineContext_def Let_def js_slice_prefix)
qed

lemma getLineContext_column_after:
  assumes j: "j < i" and nl: "content ! j = 10"
    and none: "\<forall>k. j < k \<and> k < i \<longrightarrow> content ! k \<noteq> 10" and i: "i \<le> length content"
  shows "fst (snd (getLineContext content i)) = i - j"
proof -
  let ?p = "take i content"
  have len: "length ?p = i" using i by simp
  have jp: "j < length ?p" using j len by simp
  have split: "?p = take j ?p @ ?p ! j # drop (Suc j) ?p"
    using jp by (rule id_take_nth_drop)
  have pj: "?p ! j = 10" using j nl by simp
  have no: "10 \<notin> set (drop (Suc j) ?p)"
  proof
    assume "10 \<in> set (drop (Suc j) ?p)"
    then obtain m where m: "m < length (drop (Suc j) ?p)" "drop (Suc j) ?p ! m = 10"
      by (auto simp: in_set_conv_nth)
    then have "Suc j + m < i" using len by simp
    moreover from m have "content ! (Suc j + m) = 10" using len by simp
    ultimately show False using none by auto
  qed
  have "last (js_split 10 ?p) = drop (Suc j) ?p"
    using last_js_split_after [OF no, of "take j ?p"] split pj by simp
  then show ?thesis
    using len j by (simp add: getLineContext_def Let_def js_slice_prefix js_split_nonempty)
qed

lemma js_includes_iff:
  "js_includes xs p \<longleftrightarrow> (\<exists>i. i + length p \<le> length xs \<and> take (length p) (drop i xs) = p)"
proof (induction xs)
  case Nil
  then show ?case by auto
next
  case (Cons c cs)
  show ?case
  proof
    assume "js_includes (c # cs) p"
    then consider "js_startsWith (c # cs) p" | "js_includes cs p" by auto
    then show "\<exists>i. i + length p \<le> length (c # cs) \<and> take (length p) (drop i (c # cs)) = p"
    proof cases
      case 1
      then have "take (length p) (c # cs) = p" by (simp add: js_startsWith_def)
      moreover from this have "length p \<le> length (c # cs)"
        using length_take [of "length p" "c # cs"] by (simp del: length_take)
      ultimately show ?thesis by (intro exI [of _ 0]) simp
    next
      case 2
      with Cons.IH obtain i where "i + length p \<le> length cs" "take (length p) (drop i cs) = p"
        by blast
      then show ?thesis by (intro exI [of _ "Suc i"]) simp
    qed
  next
    assume "\<exists>i. i + length p \<le> length (c # cs) \<and> take (length p) (drop i (c # cs)) = p"
    then obtain i where i: "i + length p \<le> length (c # cs)" "take (length p) (drop i (c # cs)) = p"
      by blast
    show "js_includes (c # cs) p"
    proof (cases i)
      case 0
      with i show ?thesis by (simp add: js_startsWith_def)
    next
      case (Suc i')
      with i have "i' + length p \<le> length cs \<and> take (length p) (drop i' cs) = p" by simp
      with Cons.IH show ?thesis by auto
    qed
  qed
qed

lemma window_eq:
  "js_slice content (max 0 (int idx - 100)) (int idx + int len + 100) = context_window content idx len"
proof -
  let ?n = "length content"
  have b: "nat (max 0 (int idx - 100)) = idx - 100" by (cases "100 \<le> idx") (auto simp: max_def)
  have e: "\<not> max 0 (int idx - 100) < 0" by simp
  have f: "\<not> int idx + int len + 100 < 0" by simp
  show ?thesis
  proof (cases "idx - 100 \<le> ?n")
    case True
    then have c: "min (max 0 (int idx - 100)) (int ?n) = max 0 (int idx - 100)"
      by (auto simp: max_def min_def)
    have d: "nat (min (int idx + int len + 100) (int ?n) - max 0 (int idx - 100))
        = min ?n (idx + len + 100) - (idx - 100)"
      using True by (cases "100 \<le> idx") (auto simp: max_def min_def nat_diff_distrib)
    show ?thesis
      unfolding js_slice_def Let_def context_window_def using e f by (simp only: if_False c d b)
  next
    case False
    then have "js_slice content (max 0 (int idx - 100)) (int idx + int len + 100) = []"
      by (auto simp: js_slice_def Let_def max_def min_def)
    moreover from False have "context_window content idx len = []"
      by (simp add: context_window_def)
    ultimately show ?thesis by simp
  qed
qed

lemma match_text: "js_slice content (int idx) (int idx + int len) = take len (drop idx content)"
proof (cases "idx \<le> length content")
  case True
  then have "nat (min (int idx + int len) (int (length content)) - int idx)
      = min len (length content - idx)"
    by (auto simp: min_def nat_diff_distrib)
  with True show ?thesis
    by (simp add: js_slice_def Let_def min_def take_all_iff)
next
  case False
  then show ?thesis by (simp add: js_slice_def Let_def min_def)
qed

lemma hasContext_near:
  "hasContext toLowerCase ctxs content idx len \<longleftrightarrow> keyword_near toLowerCase ctxs content idx len"
  by (simp add: hasContext_def keyword_near_def Let_def window_eq list_ex_iff)

lemma includes_map_iff:
  assumes "lo \<le> hi" "hi \<le> length content"
  shows "js_includes (map lc (take (hi - lo) (drop lo content))) (map lc k)
     \<longleftrightarrow> occurs_ci lc k content lo hi"
proof -
  let ?W = "take (hi - lo) (drop lo content)"
  have lenW: "length ?W = hi - lo" using assms by simp
  have eq: "(take (length k) (drop i (map lc ?W)) = map lc k)
      \<longleftrightarrow> (\<forall>j<length k. lc (content ! (lo + i + j)) = lc (k ! j))"
    if "i + length k \<le> hi - lo" for i
  proof -
    have l: "length (take (length k) (drop i (map lc ?W))) = length k"
      using that lenW by simp
    have n: "take (length k) (drop i (map lc ?W)) ! j = lc (content ! (lo + i + j))"
      if "j < length k" for j
      using that \<open>i + length k \<le> hi - lo\<close> assms by (simp add: add.assoc)
    show ?thesis
      using l n by (auto simp: list_eq_iff_nth_eq)
  qed
  show ?thesis
  proof
    assume "js_includes (map lc ?W) (map lc k)"
    then obtain i where i: "i + length k \<le> hi - lo"
        "take (length k) (drop i (map lc ?W)) = map lc k"
      using lenW by (auto simp: js_includes_iff)
    with eq have "\<forall>j<length k. lc (content ! (lo + i + j)) = lc (k ! j)"
      by blast
    with i(1) assms show "occurs_ci lc k content lo hi"
      unfolding occurs_ci_def by (intro exI [of _ "lo + i"]) auto
  next
    assume "occurs_ci lc k content lo hi"
    then obtain p where p: "lo \<le> p" "p + length k \<le> hi"
        "\<forall>j<length k. lc (content ! (p + j)) = lc (k ! j)"
      unfolding occurs_ci_def by blast
    define i where "i = p - lo"
    have i: "i + length k \<le> hi - lo" "lo + i = p" using p by (auto simp: i_def)
    with eq p(3) have "take (length k) (drop i (map lc ?W)) = map lc k"
      by simp
    with i(1) lenW show "js_includes (map lc ?W) (map lc k)"
      by (auto simp: js_includes_iff intro!: exI [of _ i])
  qed
qed

lemma keyword_near_occurs:
  assumes inside: "idx + len \<le> length content"
    and window: "toLowerCase (context_window content idx len) = map lc (context_window content idx len)"
    and keys: "\<forall>k\<in>set ctxs. toLowerCase k = map lc k"
  shows "keyword_near toLowerCase ctxs content idx len
    \<longleftrightarrow> (\<exists>k\<in>set ctxs. occurs_ci lc k content (idx - 100) (min (length content) (idx + len + 100)))"
proof -
  have lo: "idx - 100 \<le> min (length content) (idx + len + 100)" using inside by arith
  have hi: "min (length content) (idx + len + 100) \<le> length content" by simp
  have "js_includes (toLowerCase (context_window content idx len)) (toLowerCase k)
      \<longleftrightarrow> occurs_ci lc k content (idx - 100) (min (length content) (idx + len + 100))"
    if "k \<in> set ctxs" for k
    using that keys window includes_map_iff [OF lo hi, of lc k]
    by (simp add: context_window_def)
  then show ?thesis by (auto simp: keyword_near_def)
qed

lemma maskSecret_total: "\<exists>m. maskSecret v = Some m"
  by (auto simp: maskSecret_def js_repeat_def Let_def)

lemma scan_match_cases:
  "scan_match toLowerCase pc rel content idx len = Skip
   \<or> (\<exists>m. scan_match toLowerCase pc rel content idx len = Keep m)"
proof -
  obtain m where "maskSecret (js_slice content (int idx) (int idx + int len)) = Some m"
    using maskSecret_total by blast
  then show ?thesis
    by (simp add: scan_match_def Let_def split: prod.splits)
qed

lemma scan_match_Skip_iff:
  "scan_match toLowerCase pc rel content idx len = Skip \<longleftrightarrow>
     \<not> (case sp_context pc of None \<Rightarrow> True
         | Some ctxs \<Rightarrow> ctxs = [] \<or> keyword_near toLowerCase ctxs content idx len)"
proof -
  obtain m where "maskSecret (js_slice content (int idx) (int idx + int len)) = Some m"
    using maskSecret_total by blast
  then show ?thesis
    by (simp add: scan_match_def Let_def hasContext_near split: prod.splits option.splits)
qed

lemma scan_match_Keep:
  assumes "scan_match toLowerCase pc rel content idx len = Keep m"
  shows "sm_match m = take len (drop idx content)" and "sm_patternName m = sp_name pc"
    and "sm_line m = fst (getLineContext content idx)"
    and "sm_column m = fst (snd (getLineContext content idx))"
    and "sm_file m = rel" and "sm_pattern m = sp_pattern pc"
    and "maskSecret (take len (drop idx content)) = Some (sm_maskedMatch m)"
    and "sm_context m = snd (snd (getLineContext content idx))"
  using assms
  by (auto simp: scan_match_def Let_def match_text split: prod.splits option.splits if_splits)

lemma exec_loop_run:
  assumes "exec_run re content lastIndex spans"
  shows "\<exists>out. exec_loop re toLowerCase pc rel content lastIndex ms = Some (ms @ out)
     \<and> list_all2 (\<lambda>m (idx, len). scan_match toLowerCase pc rel content idx len = Keep m) out
          (kept_spans toLowerCase pc content spans)"
  using assms
proof (induction arbitrary: ms)
  case (exec_run_end lastIndex)
  then show ?case
    by (subst exec_loop.simps) (simp add: kept_spans_def)
next
  case (exec_run_match lastIndex idx len spans)
  let ?P = "\<lambda>m (idx, len). scan_match toLowerCase pc rel content idx len = Keep m"
  from scan_match_cases [of toLowerCase pc rel content idx len] show ?case
  proof
    assume skip: "scan_match toLowerCase pc rel content idx len = Skip"
    then have k: "kept_spans toLowerCase pc content ((idx, len) # spans)
        = kept_spans toLowerCase pc content spans"
      by (simp add: kept_spans_def scan_match_Skip_iff)
    from exec_run_match.IH [of ms] obtain out where
      out: "exec_loop re toLowerCase pc rel content (idx + len) ms = Some (ms @ out)"
        "list_all2 ?P out (kept_spans toLowerCase pc content spans)"
      by blast
    have "exec_loop re toLowerCase pc rel content lastIndex ms = Some (ms @ out)"
      by (subst exec_loop.simps) (simp add: exec_run_match.hyps skip out(1))
    with out(2) k show ?thesis by auto
  next
    assume "\<exists>m. scan_match toLowerCase pc rel content idx len = Keep m"
    then obtain m where keep: "scan_match toLowerCase pc rel content idx len = Keep m" by blast
    then have "scan_match toLowerCase pc rel content idx len \<noteq> Skip" by simp
    then have k: "kept_spans toLowerCase pc content ((idx, len) # spans)
        = (idx, len) # kept_spans toLowerCase pc content spans"
      by (simp add: kept_spans_def scan_match_Skip_iff)
    from exec_run_match.IH [of "ms @ [m]"] obtain out where
      out: "exec_loop re toLowerCase pc rel content (idx + len) (ms @ [m]) = Some ((ms @ [m]) @ out)"
        "list_all2 ?P out (kept_spans toLowerCase pc content spans)"
      by blast
    have "exec_loop re toLowerCase pc rel content lastIndex ms = Some (ms @ m # out)"
      by (subst exec_loop.simps) (simp add: exec_run_match.hyps keep out(1))
    moreover have "list_all2 ?P (m # out) (kept_spans toLowerCase pc content ((idx, len) # spans))"
      using out(2) keep by (simp add: k)
    ultimately show ?thesis by blast
  qed
qed

lemma scan_patterns_run:
  assumes "\<forall>pc\<in>set pats. \<forall>re. RegExp (sp_pattern pc) = Some re \<longrightarrow> exec_run re content 0 (run pc)"
  shows "\<exists>out. scan_patterns RegExp toLowerCase rel content pats ms = Some (ms @ out)
     \<and> list_all2 (\<lambda>m (pc, idx, len). scan_match toLowerCase pc rel content idx len = Keep m) out
          (kept_matches RegExp toLowerCase content run pats)"
  using assms
proof (induction pats arbitrary: ms)
  case Nil
  show ?case by (simp add: kept_matches_def)
next
  case (Cons pc pats)
  let ?P = "\<lambda>m (pc, idx, len). scan_match toLowerCase pc rel content idx len = Keep m"
  have rest: "\<exists>out. scan_patterns RegExp toLowerCase rel content pats ms' = Some (ms' @ out)
     \<and> list_all2 ?P out (kept_matches RegExp toLowerCase content run pats)" for ms'
    using Cons.IH [of ms'] Cons.prems by simp
  show ?case
  proof (cases "RegExp (sp_pattern pc)")
    case None
    then have "kept_matches RegExp toLowerCase content run (pc # pats)
        = kept_matches RegExp toLowerCase content run pats"
      by (simp add: kept_matches_def)
    with rest [of ms] None show ?thesis by simp
  next
    case (Some re)
    with Cons.prems have "exec_run re content 0 (run pc)" by simp
    from exec_loop_run [OF this, of toLowerCase pc rel ms] obtain out1 where
      o1: "exec_loop re toLowerCase pc rel content 0 ms = Some (ms @ out1)"
        "list_all2 (\<lambda>m (idx, len). scan_match toLowerCase pc rel content idx len = Keep m) out1
           (kept_spans toLowerCase pc content (run pc))"
      by blast
    from rest [of "ms @ out1"] obtain out2 where
      o2: "scan_patterns RegExp toLowerCase rel content pats (ms @ out1) = Some ((ms @ out1) @ out2)"
        "list_all2 ?P out2 (kept_matches RegExp toLowerCase content run pats)"
      by blast
    have k: "kept_matches RegExp toLowerCase content run (pc # pats)
        = map (\<lambda>(idx, len). (pc, idx, len)) (kept_spans toLowerCase pc content (run pc))
          @ kept_matches RegExp toLowerCase content run pats"
      using Some by (simp add: kept_matches_def)
    have l1: "list_all2 ?P out1
        (map (\<lambda>(idx, len). (pc, idx, len)) (kept_spans toLowerCase pc content (run pc)))"
      using o1(2) by (simp add: list_all2_map2 case_prod_unfold)
    have "scan_patterns RegExp toLowerCase rel content (pc # pats) ms = Some (ms @ out1 @ out2)"
      using Some o1(1) o2(1) by simp
    moreover have "list_all2 ?P (out1 @ out2) (kept_matches RegExp toLowerCase content run (pc # pats))"
      unfolding k using l1 o2(2) by (rule list_all2_appendI)
    ultimately show ?thesis by blast
  qed
qed

lemma scanFile_kept:
  assumes "readText filePath = Some content"
    and "\<forall>pc\<in>set pats. \<forall>re. RegExp (sp_pattern pc) = Some re \<longrightarrow> exec_run re content 0 (run pc)"
  shows "\<exists>out. scanFile RegExp toLowerCase ROOT_DIR readText filePath pats = Some out
     \<and> list_all2 (\<lambda>m (pc, idx, len).
           scan_match toLowerCase pc (path_relative ROOT_DIR filePath) content idx len = Keep m) out
          (kept_matches RegExp toLowerCase content run pats)"
  using scan_patterns_run [OF assms(2), of toLowerCase "path_relative ROOT_DIR filePath" "[]"] assms(1)
  by (simp add: scanFile_def)

lemma replicate_numeral_unfold: "replicate (numeral k) x = x # replicate (pred_numeral k) x"
  by (simp add: numeral_eq_Suc)

lemmas scan_eval = replicate_numeral_unfold scanFile_def literal_regexp_def literal_expression_def
  exec_loop.simps scan_match_def hasContext_def js_slice_def example_toLowerCase_def lower_unit_def
  cased_unit_def case_ignorable_unit_def cased_ahead_def js_startsWith_def getLineContext_def
  maskSecret_def js_repeat_def js_slice_from_def path_relative_def js_trim_def js_trim_by_def
  js_trimEnd_by_def js_trimStart_by_def js_space_def Let_def str_def

lemma kept_matches_member:
  assumes "(pc, idx, len) \<in> set (kept_matches RegExp toLowerCase content run pats)"
  shows "pc \<in> set pats \<and> (\<exists>re. RegExp (sp_pattern pc) = Some re) \<and> (idx, len) \<in> set (run pc)"
proof -
  from assms obtain p where p: "p \<in> set pats"
    and m: "(pc, idx, len) \<in> set (case RegExp (sp_pattern p) of None \<Rightarrow> []
        | Some re \<Rightarrow> map (\<lambda>(idx, len). (p, idx, len)) (kept_spans toLowerCase p content (run p)))"
    by (auto simp: kept_matches_def)
  show ?thesis
  proof (cases "RegExp (sp_pattern p)")
    case None
    with m show ?thesis by simp
  next
    case (Some re)
    with m have "p = pc" "(idx, len) \<in> set (run pc)" by (auto simp: kept_spans_def)
    with p Some show ?thesis by auto
  qed
qed

lemma list_all2_map_eq:
  "list_all2 P xs ys \<Longrightarrow> (\<And>x y. P x y \<Longrightarrow> f x = g y) \<Longrightarrow> map f xs = map g ys"
  by (induction rule: list_all2_induct) simp_all

text \<open>
  C2 (as amended). For every file that is read, every list of patterns and every run of
  their expressions over the content, the scan returns, and the matches it returns are,
  in order, the kept matches: for a pattern that declares a non-empty list of keywords,
  a match is kept if and only if the lower-case form of its window (the content from 100
  characters before its start to 100 characters behind its end) contains the lower-case
  form of some keyword. Where \<^verbatim>\<open>toLowerCase\<close> works character by character on the
  window and on the keywords, that is: some keyword occurs case-insensitively between the
  positions \<open>idx - 100\<close> (or 0) and \<open>idx + len + 100\<close> (or the end) of the content.
  With the keyword \<^verbatim>\<open>database\<close>: the line alone gives no match; the keyword on the same
  line gives the match; the keyword ending 93 characters before the match (so that it
  starts 101 characters before it) gives none, and one character closer gives the match.
\<close>

theorem scanFile_context_gate:
  assumes "readText filePath = Some content"
    and "\<forall>pc\<in>set pats. \<forall>re. RegExp (sp_pattern pc) = Some re \<longrightarrow> exec_run re content 0 (run pc)"
  shows "(\<exists>out. scanFile RegExp toLowerCase ROOT_DIR readText filePath pats = Some out
            \<and> map (\<lambda>m. (sm_patternName m, sm_match m)) out
              = map (\<lambda>(pc, idx, len). (sp_name pc, take len (drop idx content)))
                  (kept_matches RegExp toLowerCase content run pats))
    \<and> (\<forall>ctxs idx len lc.
          idx + len \<le> length content
          \<and> toLowerCase (context_window content idx len) = map lc (context_window content idx len)
          \<and> (\<forall>k\<in>set ctxs. toLowerCase k = map lc k)
          \<longrightarrow> (keyword_near toLowerCase ctxs content idx len \<longleftrightarrow>
                 (\<exists>k\<in>set ctxs. occurs_ci lc k content (idx - 100)
                                (min (length content) (idx + len + 100)))))
    \<and> scanFile literal_regexp example_toLowerCase (str ''/r'')
          (\<lambda>p. Some (str ''secret = \"abcdefgh12345678\"'')) (str ''/r/f.env'') [example_pattern]
        = Some []
    \<and> scanFile literal_regexp example_toLowerCase (str ''/r'')
          (\<lambda>p. Some (str ''DataBase: secret = \"abcdefgh12345678\"'')) (str ''/r/f.env'')
          [example_pattern]
        = Some [\<lparr> sm_file = str ''f.env'', sm_line = 1, sm_column = 11,
             sm_pattern = str ''secret = \"abcdefgh12345678\"'', sm_patternName = str ''Secret'',
             sm_match = str ''secret = \"abcdefgh12345678\"'',
             sm_maskedMatch = str ''secr****************678\"'',
             sm_context = str ''DataBase: secret = \"abcdefgh12345678\"'' \<rparr>]
    \<and> scanFile literal_regexp example_toLowerCase (str ''/r'')
          (\<lambda>p. Some (str ''database'' @ replicate 93 32 @ str ''secret = \"abcdefgh12345678\"''))
          (str ''/r/f.env'') [example_pattern] = Some []
    \<and> map_option (map sm_column)
          (scanFile literal_regexp example_toLowerCase (str ''/r'')
             (\<lambda>p. Some (str ''database'' @ replicate 92 32 @ str ''secret = \"abcdefgh12345678\"''))
             (str ''/r/f.env'') [example_pattern]) = Some [101]"
proof -
  from scanFile_kept [where readText = readText and filePath = filePath and content = content
      and pats = pats and RegExp = RegExp and run = run and toLowerCase = toLowerCase
      and ROOT_DIR = ROOT_DIR, OF assms] obtain out where
    out: "scanFile RegExp toLowerCase ROOT_DIR readText filePath pats = Some out"
      "list_all2 (\<lambda>m (pc, idx, len).
           scan_match toLowerCase pc (path_relative ROOT_DIR filePath) content idx len = Keep m) out
          (kept_matches RegExp toLowerCase content run pats)"
    by blast
  have "map (\<lambda>m. (sm_patternName m, sm_match m)) out
      = map (\<lambda>(pc, idx, len). (sp_name pc, take len (drop idx content)))
          (kept_matches RegExp toLowerCase content run pats)"
    using out(2) by (rule list_all2_map_eq) (auto simp: scan_match_Keep)
  with out(1) have general: "\<exists>out. scanFile RegExp toLowerCase ROOT_DIR readText filePath pats = Some out
            \<and> map (\<lambda>m. (sm_patternName m, sm_match m)) out
              = map (\<lambda>(pc, idx, len). (sp_name pc, take len (drop idx content)))
                  (kept_matches RegExp toLowerCase content run pats)"
    by blast
  have ci: "\<forall>ctxs idx len lc.
          idx + len \<le> length content
          \<and> toLowerCase (context_window content idx len) = map lc (context_window content idx len)
          \<and> (\<forall>k\<in>set ctxs. toLowerCase k = map lc k)
          \<longrightarrow> (keyword_near toLowerCase ctxs content idx len \<longleftrightarrow>
                 (\<exists>k\<in>set ctxs. occurs_ci lc k content (idx - 100)
                                (min (length content) (idx + len + 100))))"
    using keyword_near_occurs by blast
  have i1: "scanFile literal_regexp example_toLowerCase (str ''/r'')
          (\<lambda>p. Some (str ''secret = \"abcdefgh12345678\"'')) (str ''/r/f.env'') [example_pattern]
        = Some []"
    by (simp add: example_pattern_def scan_eval)
  have i2: "scanFile literal_regexp example_toLowerCase (str ''/r'')
          (\<lambda>p. Some (str ''DataBase: secret = \"abcdefgh12345678\"'')) (str ''/r/f.env'')
          [example_pattern]
        = Some [\<lparr> sm_file = str ''f.env'', sm_line = 1, sm_column = 11,
             sm_pattern = str ''secret = \"abcdefgh12345678\"'', sm_patternName = str ''Secret'',
             sm_match = str ''secret = \"abcdefgh12345678\"'',
             sm_maskedMatch = str ''secr****************678\"'',
             sm_context = str ''DataBase: secret = \"abcdefgh12345678\"'' \<rparr>]"
    by (simp add: example_pattern_def scan_eval)
  have i3: "scanFile literal_regexp example_toLowerCase (str ''/r'')
          (\<lambda>p. Some (str ''database'' @ replicate 93 32 @ str ''secret = \"abcdefgh12345678\"''))
          (str ''/r/f.env'') [example_pattern] = Some []"
    by (simp add: example_pattern_def scan_eval)
  have i4: "map_option (map sm_column)
          (scanFile literal_regexp example_toLowerCase (str ''/r'')
             (\<lambda>p. Some (str ''database'' @ replicate 92 32 @ str ''secret = \"abcdefgh12345678\"''))
             (str ''/r/f.env'') [example_pattern]) = Some [101]"
    by (simp add: example_pattern_def scan_eval)
  from general ci i1 i2 i3 i4 show ?thesis by blast
qed

theorem scanFile_context_gate_witness:
  "map_option (map (\<lambda>m. (sm_patternName m, sm_match m)))
     (scanFile literal_regexp example_toLowerCase (str ''/r'')
        (\<lambda>p. Some (str ''DataBase: secret = \"abcdefgh12345678\"'')) (str ''/r/f.env'')
        [example_pattern])
     = Some [(str ''Secret'', str ''secret = \"abcdefgh12345678\"'')]
   \<and> occurs_ci lower_unit (str ''database'') (str ''DataBase: secret = \"abcdefgh12345678\"'')
         (10 - 100) (min (length (str ''DataBase: secret = \"abcdefgh12345678\"'')) (10 + 27 + 100))"
proof -
  let ?content = "str ''DataBase: secret = \"abcdefgh12345678\"''"
  let ?read = "\<lambda>p :: jsstring. Some ?content"
  let ?run = "\<lambda>pc :: SecretPattern. [(10 :: nat, 27 :: nat)]"
  have read: "?read (str ''/r/f.env'') = Some ?content" by simp
  have run: "\<forall>pc\<in>set [example_pattern]. \<forall>re. literal_regexp (sp_pattern pc) = Some re
      \<longrightarrow> exec_run re ?content 0 (?run pc)"
    by (auto intro!: exec_run.intros
        simp: example_pattern_def literal_regexp_def literal_expression_def js_startsWith_def str_def)
  note t = scanFile_context_gate [where readText = ?read and filePath = "str ''/r/f.env''"
      and content = ?content and pats = "[example_pattern]" and RegExp = literal_regexp
      and run = ?run and toLowerCase = example_toLowerCase and ROOT_DIR = "str ''/r''", OF read run]
  have near: "keyword_near example_toLowerCase [str ''database''] ?content 10 27"
    by (simp add: keyword_near_def context_window_def example_toLowerCase_def lower_unit_def
        js_startsWith_def str_def)
  have km: "kept_matches literal_regexp example_toLowerCase ?content ?run [example_pattern]
      = [(example_pattern, 10, 27)]"
    using near by (simp add: kept_matches_def kept_spans_def literal_regexp_def example_pattern_def)
  from t [THEN conjunct1] have a: "map_option (map (\<lambda>m. (sm_patternName m, sm_match m)))
     (scanFile literal_regexp example_toLowerCase (str ''/r'') ?read (str ''/r/f.env'')
        [example_pattern])
     = Some [(str ''Secret'', str ''secret = \"abcdefgh12345678\"'')]"
    unfolding km by (auto simp: example_pattern_def str_def)
  have inside: "10 + 27 \<le> length ?content" by (simp add: str_def)
  have w: "example_toLowerCase (context_window ?content 10 27)
      = map lower_unit (context_window ?content 10 27)"
    by (simp add: context_window_def example_toLowerCase_def lower_unit_def str_def)
  have k: "\<forall>k\<in>set [str ''database'']. example_toLowerCase k = map lower_unit k"
    by (simp add: example_toLowerCase_def lower_unit_def str_def)
  from t [THEN conjunct2, THEN conjunct1, rule_format, of 10 27 lower_unit "[str ''database'']"]
    inside w k near
  have "\<exists>k\<in>set [str ''database'']. occurs_ci lower_unit k ?content (10 - 100)
      (min (length ?content) (10 + 27 + 100))"
    by blast
  then have b: "occurs_ci lower_unit (str ''database'') ?content (10 - 100)
      (min (length ?content) (10 + 27 + 100))"
    by simp
  from a b show ?thesis by blast
qed

text \<open>
  The claim as the specification words it fails where lower case is not taken character
  by character. In the content \<^verbatim>\<open>a\<close>, capital sigma, \<^verbatim>\<open> secret = "abcdefgh12345678"\<close>
  the expression matches at offset 3, and the keyword, a capital sigma, occurs as it is
  in the window of the match; the lower-case form of the window has a final sigma there,
  that of the keyword is a small sigma, and the match is discarded.
\<close>

theorem scanFile_keyword_counterexample:
  "exec_run (literal_expression (str ''secret = \"abcdefgh12345678\"''))
     (str ''a'' @ [931] @ str '' secret = \"abcdefgh12345678\"'') 0 [(3, 27)]
   \<and> js_includes (context_window (str ''a'' @ [931] @ str '' secret = \"abcdefgh12345678\"'') 3 27)
        [931]
   \<and> scanFile literal_regexp example_toLowerCase (str ''/r'')
        (\<lambda>p. Some (str ''a'' @ [931] @ str '' secret = \"abcdefgh12345678\"'')) (str ''/r/f.env'')
        [\<lparr> sp_name = str ''Secret'', sp_pattern = str ''secret = \"abcdefgh12345678\"'',
           sp_context = Some [[931]], sp_description = [] \<rparr>]
      = Some []"
proof -
  have a: "exec_run (literal_expression (str ''secret = \"abcdefgh12345678\"''))
     (str ''a'' @ [931] @ str '' secret = \"abcdefgh12345678\"'') 0 [(3, 27)]"
    by (auto intro!: exec_run.intros simp: literal_expression_def js_startsWith_def str_def)
  have b: "js_includes (context_window (str ''a'' @ [931] @ str '' secret = \"abcdefgh12345678\"'') 3 27)
        [931]"
    by (simp add: context_window_def js_startsWith_def str_def)
  have c: "scanFile literal_regexp example_toLowerCase (str ''/r'')
        (\<lambda>p. Some (str ''a'' @ [931] @ str '' secret = \"abcdefgh12345678\"'')) (str ''/r/f.env'')
        [\<lparr> sp_name = str ''Secret'', sp_pattern = str ''secret = \"abcdefgh12345678\"'',
           sp_context = Some [[931]], sp_description = [] \<rparr>]
      = Some []"
    by (simp add: scan_eval)
  from a b c show ?thesis by blast
qed

text \<open>
  C6. For every file that is read and every run of the expressions over its content, the
  scan returns, and each match it keeps, a match that starts at offset \<open>idx\<close> of the
  content, reports as its line the number of line feeds before \<open>idx\<close> plus 1, and as its
  column \<open>idx\<close> minus the index of the last line feed before \<open>idx\<close> (that index being
  -1 when there is none, so the column is \<open>idx + 1\<close>). For the content of the
  specification, the match of the whole second line, at offset 2, reports line 2 and
  column 1, and the match of the value in it, at offset 11, reports line 2 and column 10.
\<close>

theorem scanFile_line_column:
  assumes "readText filePath = Some content"
    and "\<forall>pc\<in>set pats. \<forall>re. RegExp (sp_pattern pc) = Some re \<longrightarrow>
           exec_run re content 0 (run pc) \<and> (\<forall>(idx, len)\<in>set (run pc). idx \<le> length content)"
  shows "(\<exists>out. scanFile RegExp toLowerCase ROOT_DIR readText filePath pats = Some out
            \<and> list_all2
                 (\<lambda>m (pc, idx, len).
                    sm_line m = length (filter (\<lambda>c. c = 10) (take idx content)) + 1
                    \<and> ((\<forall>j<idx. content ! j \<noteq> 10) \<longrightarrow> sm_column m = idx + 1)
                    \<and> (\<forall>j<idx. content ! j = 10 \<and> (\<forall>k. j < k \<and> k < idx \<longrightarrow> content ! k \<noteq> 10)
                          \<longrightarrow> sm_column m = idx - j))
                 out (kept_matches RegExp toLowerCase content run pats))
    \<and> map_option (map (\<lambda>m. (sm_match m, sm_line m, sm_column m)))
        (scanFile literal_regexp example_toLowerCase (str ''/r'')
           (\<lambda>p. Some (str ''a'' @ [10] @ str ''apiKey: \"0123456789abcdef\"'' @ [10]))
           (str ''/r/f.env'')
           [\<lparr> sp_name = str ''Line'', sp_pattern = str ''apiKey: \"0123456789abcdef\"'',
              sp_context = None, sp_description = [] \<rparr>,
            \<lparr> sp_name = str ''Value'', sp_pattern = str ''0123456789abcdef'',
              sp_context = None, sp_description = [] \<rparr>])
      = Some [(str ''apiKey: \"0123456789abcdef\"'', 2, 1), (str ''0123456789abcdef'', 2, 10)]"
proof -
  let ?Q = "\<lambda>m (pc, idx, len).
      sm_line m = length (filter (\<lambda>c. c = 10) (take idx content)) + 1
      \<and> ((\<forall>j<idx. content ! j \<noteq> 10) \<longrightarrow> sm_column m = idx + 1)
      \<and> (\<forall>j<idx. content ! j = 10 \<and> (\<forall>k. j < k \<and> k < idx \<longrightarrow> content ! k \<noteq> 10)
            \<longrightarrow> sm_column m = idx - j)"
  have run: "\<forall>pc\<in>set pats. \<forall>re. RegExp (sp_pattern pc) = Some re \<longrightarrow> exec_run re content 0 (run pc)"
    using assms(2) by blast
  from scanFile_kept [where readText = readText and filePath = filePath and content = content
      and pats = pats and RegExp = RegExp and run = run and toLowerCase = toLowerCase
      and ROOT_DIR = ROOT_DIR, OF assms(1) run] obtain out where
    out: "scanFile RegExp toLowerCase ROOT_DIR readText filePath pats = Some out"
      "list_all2 (\<lambda>m (pc, idx, len).
           scan_match toLowerCase pc (path_relative ROOT_DIR filePath) content idx len = Keep m) out
          (kept_matches RegExp toLowerCase content run pats)"
    by blast
  have "list_all2 ?Q out (kept_matches RegExp toLowerCase content run pats)"
    using out(2)
  proof (rule list.rel_mono_strong)
    fix m y
    assume y: "y \<in> set (kept_matches RegExp toLowerCase content run pats)"
      and k: "(case y of (pc, idx, len) \<Rightarrow>
          scan_match toLowerCase pc (path_relative ROOT_DIR filePath) content idx len = Keep m)"
    obtain pc idx len where yy: "y = (pc, idx, len)" by (cases y)
    from y yy kept_matches_member [of pc idx len RegExp toLowerCase content run pats]
    have "pc \<in> set pats" "\<exists>re. RegExp (sp_pattern pc) = Some re" "(idx, len) \<in> set (run pc)"
      by blast+
    with assms(2) have inside: "idx \<le> length content" by fastforce
    from k yy have keep:
      "scan_match toLowerCase pc (path_relative ROOT_DIR filePath) content idx len = Keep m"
      by simp
    have l: "sm_line m = length (filter (\<lambda>c. c = 10) (take idx content)) + 1"
      using scan_match_Keep(3) [OF keep] by (simp add: getLineContext_line)
    have c1: "sm_column m = idx + 1" if "\<forall>j<idx. content ! j \<noteq> 10"
      using scan_match_Keep(4) [OF keep] getLineContext_column_first [OF that inside] by simp
    have c2: "sm_column m = idx - j"
      if "j < idx" "content ! j = 10" "\<forall>k. j < k \<and> k < idx \<longrightarrow> content ! k \<noteq> 10" for j
      using scan_match_Keep(4) [OF keep] getLineContext_column_after [OF that inside] by simp
    from l c1 c2 show "case y of (pc, idx, len) \<Rightarrow>
      sm_line m = length (filter (\<lambda>c. c = 10) (take idx content)) + 1
      \<and> ((\<forall>j<idx. content ! j \<noteq> 10) \<longrightarrow> sm_column m = idx + 1)
      \<and> (\<forall>j<idx. content ! j = 10 \<and> (\<forall>k. j < k \<and> k < idx \<longrightarrow> content ! k \<noteq> 10)
            \<longrightarrow> sm_column m = idx - j)"
      unfolding yy by simp
  qed
  with out(1) have general: "\<exists>out. scanFile RegExp toLowerCase ROOT_DIR readText filePath pats = Some out
      \<and> list_all2 ?Q out (kept_matches RegExp toLowerCase content run pats)"
    by blast
  have inst: "map_option (map (\<lambda>m. (sm_match m, sm_line m, sm_column m)))
        (scanFile literal_regexp example_toLowerCase (str ''/r'')
           (\<lambda>p. Some (str ''a'' @ [10] @ str ''apiKey: \"0123456789abcdef\"'' @ [10]))
           (str ''/r/f.env'')
           [\<lparr> sp_name = str ''Line'', sp_pattern = str ''apiKey: \"0123456789abcdef\"'',
              sp_context = None, sp_description = [] \<rparr>,
            \<lparr> sp_name = str ''Value'', sp_pattern = str ''0123456789abcdef'',
              sp_context = None, sp_description = [] \<rparr>])
      = Some [(str ''apiKey: \"0123456789abcdef\"'', 2, 1), (str ''0123456789abcdef'', 2, 10)]"
    by (simp add: scan_eval)
  from general inst show ?thesis by blast
qed

theorem scanFile_line_column_witness:
  "map_option (map (\<lambda>m. (sm_line m, sm_column m)))
     (scanFile literal_regexp example_toLowerCase (str ''/r'')
        (\<lambda>p. Some (str ''ab'' @ [10] @ str ''cdefg'')) (str ''/r/f.env'')
        [\<lparr> sp_name = str ''G'', sp_pattern = str ''g'', sp_context = None, sp_description = [] \<rparr>])
     = Some [(2, 5)]"
proof -
  let ?content = "str ''ab'' @ [10] @ str ''cdefg''"
  let ?read = "\<lambda>p :: jsstring. Some ?content"
  let ?pc = "\<lparr> sp_name = str ''G'', sp_pattern = str ''g'', sp_context = None, sp_description = [] \<rparr>"
  let ?run = "\<lambda>pc :: SecretPattern. [(7 :: nat, 1 :: nat)]"
  have read: "?read (str ''/r/f.env'') = Some ?content" by simp
  have run: "\<forall>pc\<in>set [?pc]. \<forall>re. literal_regexp (sp_pattern pc) = Some re
      \<longrightarrow> exec_run re ?content 0 (?run pc) \<and> (\<forall>(idx, len)\<in>set (?run pc). idx \<le> length ?content)"
    by (auto intro!: exec_run.intros
        simp: literal_regexp_def literal_expression_def js_startsWith_def str_def)
  note t = scanFile_line_column [where readText = ?read and filePath = "str ''/r/f.env''"
      and content = ?content and pats = "[?pc]" and RegExp = literal_regexp
      and run = ?run and toLowerCase = example_toLowerCase and ROOT_DIR = "str ''/r''",
      OF read run, THEN conjunct1]
  have km: "kept_matches literal_regexp example_toLowerCase ?content ?run [?pc] = [(?pc, 7, 1)]"
    by (simp add: kept_matches_def kept_spans_def literal_regexp_def)
  from t obtain m where m: "scanFile literal_regexp example_toLowerCase (str ''/r'') ?read
        (str ''/r/f.env'') [?pc] = Some [m]"
    and l: "sm_line m = length (filter (\<lambda>c. c = 10) (take 7 ?content)) + 1"
    and c: "\<forall>j<7. ?content ! j = 10 \<and> (\<forall>k. j < k \<and> k < 7 \<longrightarrow> ?content ! k \<noteq> 10)
          \<longrightarrow> sm_column m = 7 - j"
    unfolding km by (auto simp: list_all2_Cons2)
  have between: "\<forall>k. 2 < k \<and> k < 7 \<longrightarrow> ?content ! k \<noteq> 10"
  proof (intro allI impI)
    fix k :: nat assume "2 < k \<and> k < 7"
    then have "k = 3 \<or> k = 4 \<or> k = 5 \<or> k = 6" by arith
    then show "?content ! k \<noteq> 10" by (auto simp: str_def)
  qed
  have two: "(2 :: nat) < 7" by simp
  have "?content ! 2 = 10" by (simp add: str_def)
  with c [rule_format, OF two] between have "sm_column m = 7 - 2" by blast
  moreover from l have "sm_line m = 2" by (simp add: str_def)
  ultimately show ?thesis using m by simp
qed

lemma walk_entries_ignored:
  assumes "shouldIgnore RegExp ROOT_DIR (path_join dir entry) (ignorePatterns config) = Some True"
  shows "walk_entries RegExp toLowerCase ROOT_DIR config dir (before @ (entry, node) # after) st
       = walk_entries RegExp toLowerCase ROOT_DIR config dir (before @ after) st"
proof (induction before arbitrary: st)
  case Nil
  with assms show ?case by simp
next
  case (Cons e before)
  obtain entry' node' where e: "e = (entry', node')" by (cases e)
  show ?case
    unfolding e
    by (simp add: Cons.IH Let_def split: option.splits bool.splits fsnode.splits)
qed

lemma walk_agrees_refl: "walk_agrees toLowerCase config st st []"
  by (simp add: walk_agrees_def)

lemma walk_agrees_trans:
  "walk_agrees toLowerCase config st st' xs \<Longrightarrow> walk_agrees toLowerCase config st' st'' ys
   \<Longrightarrow> walk_agrees toLowerCase config st st'' (xs @ ys)"
  by (simp add: walk_agrees_def)

lemma walk_agrees_file:
  "walk_agrees toLowerCase config st
     (st \<lparr> scanned := scanned st + 1,
           files := (if hasValidExtension toLowerCase p (fileExtensions config) then files st @ [p] else files st) \<rparr>)
     [p]"
  by (simp add: walk_agrees_def)

lemma walk_entries_agrees:
  assumes nodes: "\<And>entry node dir st. (entry, node) \<in> set entries \<Longrightarrow>
      walk_agrees toLowerCase config st (walk RegExp toLowerCase ROOT_DIR config dir node st)
        (encountered RegExp ROOT_DIR config dir node)"
  shows "walk_agrees toLowerCase config st (walk_entries RegExp toLowerCase ROOT_DIR config dir entries st)
           (encountered_entries RegExp ROOT_DIR config dir entries)"
  using nodes
proof (induction entries arbitrary: st)
  case Nil
  show ?case by (simp add: walk_agrees_refl)
next
  case (Cons e entries)
  obtain entry node where e: "e = (entry, node)" by (cases e)
  let ?full = "path_join dir entry"
  have rest: "walk_agrees toLowerCase config s (walk_entries RegExp toLowerCase ROOT_DIR config dir entries s)
           (encountered_entries RegExp ROOT_DIR config dir entries)" for s
  proof (rule Cons.IH)
    fix entry' node' s' dir'
    assume "(entry', node') \<in> set entries"
    then have "(entry', node') \<in> set (e # entries)" by simp
    then show "walk_agrees toLowerCase config s' (walk RegExp toLowerCase ROOT_DIR config dir' node' s')
        (encountered RegExp ROOT_DIR config dir' node')"
      by (rule Cons.prems)
  qed
  have sub: "walk_agrees toLowerCase config st (walk RegExp toLowerCase ROOT_DIR config ?full node st)
        (encountered RegExp ROOT_DIR config ?full node)"
  proof (rule Cons.prems)
    show "(entry, node) \<in> set (e # entries)" by (simp add: e Let_def)
  qed
  show ?case
  proof (cases "shouldIgnore RegExp ROOT_DIR ?full (ignorePatterns config)")
    case None
    then show ?thesis by (simp add: e Let_def walk_agrees_refl)
  next
    case (Some ign)
    show ?thesis
    proof (cases ign)
      case True
      with Some show ?thesis by (simp add: e Let_def rest)
    next
      case False
      show ?thesis
      proof (cases node)
        case RegularFile
        have "walk_agrees toLowerCase config st
            (walk_entries RegExp toLowerCase ROOT_DIR config dir entries
               (st \<lparr> scanned := scanned st + 1,
                     files := (if hasValidExtension toLowerCase ?full (fileExtensions config)
                               then files st @ [?full] else files st) \<rparr>))
            ([?full] @ encountered_entries RegExp ROOT_DIR config dir entries)"
          by (rule walk_agrees_trans [OF walk_agrees_file rest])
        with Some False RegularFile show ?thesis by (simp add: e Let_def)
      next
        case (Directory sub_entries)
        show ?thesis
        proof (cases "\<not> js_startsWith entry (str ''.'') \<or> entry = str ''.config''")
          case True
          have "walk_agrees toLowerCase config st
              (walk_entries RegExp toLowerCase ROOT_DIR config dir entries (walk RegExp toLowerCase ROOT_DIR config ?full node st))
              (encountered RegExp ROOT_DIR config ?full node
                 @ encountered_entries RegExp ROOT_DIR config dir entries)"
            by (rule walk_agrees_trans [OF sub rest])
          with Some False Directory True show ?thesis by (simp add: e Let_def)
        next
          case no: False
          with Some False Directory show ?thesis by (simp add: e Let_def rest)
        qed
      next
        case UnreadableDirectory
        with Some False show ?thesis by (simp add: e Let_def rest)
      next
        case OtherEntry
        with Some False show ?thesis by (simp add: e Let_def rest)
      next
        case StatFails
        with Some False show ?thesis by (simp add: e Let_def rest)
      qed
    qed
  qed
qed

lemma walk_agrees_encountered:
  "walk_agrees toLowerCase config st (walk RegExp toLowerCase ROOT_DIR config dir node st)
     (encountered RegExp ROOT_DIR config dir node)"
proof (induction node arbitrary: dir st)
  case (Directory entries)
  have "walk_agrees toLowerCase config st (walk_entries RegExp toLowerCase ROOT_DIR config dir entries st)
           (encountered_entries RegExp ROOT_DIR config dir entries)"
  proof (rule walk_entries_agrees)
    fix entry node d s
    assume "(entry, node) \<in> set entries"
    then show "walk_agrees toLowerCase config s (walk RegExp toLowerCase ROOT_DIR config d node s)
        (encountered RegExp ROOT_DIR config d node)"
      using Directory.IH [of "(entry, node)" node] by simp
  qed
  then show ?case by simp
qed (simp_all add: walk_agrees_refl)

lemmas walk_eval = minimatch_def shouldIgnore_def path_relative_def path_join_def
  js_startsWith_def regexp_test_def node_modules_regexp_def node_modules_source_def
  hasValidExtension_def path_extname_def path_basename_def example_toLowerCase_def
  lower_unit_def Let_def str_def

text \<open>
  C8 fails on the code. The path \<^verbatim>\<open>node_modules/x.json\<close>, relative to the root, matches
  the glob \<^verbatim>\<open>**/node_modules/**\<close>, the two stars standing for no directory. The
  expression that \<^verbatim>\<open>minimatch\<close> builds from the glob asks for a separator before
  \<^verbatim>\<open>node_modules\<close>, so \<^verbatim>\<open>shouldIgnore\<close> is false of the file: the traversal counts
  it, its extension is examined, and the result of the run has it in both counts. The
  same file one directory down is ignored and is in neither count.
\<close>

theorem ignore_glob_top_level:
  "glob_match (str ''**/node_modules/**'') (str ''node_modules/x.json'')
   \<and> shouldIgnore node_modules_regexp (str ''/r'') (str ''/r/node_modules/x.json'')
       [str ''**/node_modules/**''] = Some False
   \<and> main_result node_modules_regexp example_toLowerCase (str ''/r'')
       (Directory [(str ''node_modules'', Directory [(str ''x.json'', RegularFile)])])
       (\<lambda>p. None) example_config
     = Some \<lparr> totalFiles = 1, scannedFiles = 1, secretsFound = [], hasSecrets = False \<rparr>
   \<and> glob_match (str ''**/node_modules/**'') (str ''zed/node_modules/x.json'')
   \<and> main_result node_modules_regexp example_toLowerCase (str ''/r'')
       (Directory [(str ''zed'', Directory
          [(str ''node_modules'', Directory [(str ''x.json'', RegularFile)])])])
       (\<lambda>p. None) example_config
     = Some \<lparr> totalFiles = 0, scannedFiles = 0, secretsFound = [], hasSecrets = False \<rparr>"
proof -
  have a: "glob_match (str ''**/node_modules/**'') (str ''node_modules/x.json'')"
    by (simp add: glob_match_def str_def)
  have b: "shouldIgnore node_modules_regexp (str ''/r'') (str ''/r/node_modules/x.json'')
       [str ''**/node_modules/**''] = Some False"
    by (simp add: walk_eval)
  have c: "main_result node_modules_regexp example_toLowerCase (str ''/r'')
       (Directory [(str ''node_modules'', Directory [(str ''x.json'', RegularFile)])])
       (\<lambda>p. None) example_config
     = Some \<lparr> totalFiles = 1, scannedFiles = 1, secretsFound = [], hasSecrets = False \<rparr>"
    by (simp add: main_result_def scanDirectory_def scanFile_def example_config_def walk_eval)
  have d: "glob_match (str ''**/node_modules/**'') (str ''zed/node_modules/x.json'')"
    by (simp add: glob_match_def str_def)
  have e: "main_result node_modules_regexp example_toLowerCase (str ''/r'')
       (Directory [(str ''zed'', Directory
          [(str ''node_modules'', Directory [(str ''x.json'', RegularFile)])])])
       (\<lambda>p. None) example_config
     = Some \<lparr> totalFiles = 0, scannedFiles = 0, secretsFound = [], hasSecrets = False \<rparr>"
    by (simp add: main_result_def scanDirectory_def scanFile_def example_config_def walk_eval)
  from a b c d e show ?thesis by blast
qed

text \<open>
  C10. In every result the run builds, \<open>totalFiles\<close> is at most \<open>scannedFiles\<close>:
  \<open>scannedFiles\<close> is the number of regular files the traversal encounters and does not
  ignore, whatever their extension, and \<open>totalFiles\<close> is the number of those whose
  extension passes the filter.
\<close>

theorem totalFiles_le_scannedFiles:
  assumes "main_result RegExp toLowerCase ROOT_DIR tree readText config = Some r"
  shows "totalFiles r \<le> scannedFiles r
    \<and> scannedFiles r = length (encountered RegExp ROOT_DIR config ROOT_DIR tree)
    \<and> totalFiles r = length (filter (\<lambda>p. hasValidExtension toLowerCase p (fileExtensions config))
                                 (encountered RegExp ROOT_DIR config ROOT_DIR tree))"
proof -
  let ?st = "walk RegExp toLowerCase ROOT_DIR config ROOT_DIR tree \<lparr> files = [], scanned = 0 \<rparr>"
  have agrees: "walk_agrees toLowerCase config \<lparr> files = [], scanned = 0 \<rparr> ?st
      (encountered RegExp ROOT_DIR config ROOT_DIR tree)"
    by (rule walk_agrees_encountered)
  from assms have "totalFiles r = length (files ?st)" and "scannedFiles r = scanned ?st"
    by (auto simp: main_result_def scanDirectory_def Let_def split: option.splits)
  with agrees show ?thesis
    by (simp add: walk_agrees_def)
qed

theorem totalFiles_le_scannedFiles_witness:
  "main_result node_modules_regexp example_toLowerCase (str ''/r'') example_tree (\<lambda>p. None)
       example_config
     = Some \<lparr> totalFiles = 2, scannedFiles = 3, secretsFound = [], hasSecrets = False \<rparr>
   \<and> length (encountered node_modules_regexp (str ''/r'') example_config (str ''/r'') example_tree) = 3"
proof -
  have run: "main_result node_modules_regexp example_toLowerCase (str ''/r'') example_tree
       (\<lambda>p. None) example_config
     = Some \<lparr> totalFiles = 2, scannedFiles = 3, secretsFound = [], hasSecrets = False \<rparr>"
    by (simp add: main_result_def scanDirectory_def scanFile_def example_tree_def
        example_config_def walk_eval)
  from totalFiles_le_scannedFiles [OF run] run show ?thesis by simp
qed

text \<open>
  C7 (as amended). When there is no configuration file and when its text is not JSON, the
  loader returns, without raising, the built-in configuration: its three patterns are the
  generic API key, secret and password patterns, with quoted values of at least 16, 8 and
  4 characters. A file that is JSON is returned as it was read, whatever it holds.
\<close>

theorem loadConfig_fallback:
  "loadConfig NoSuchFile = (default_config :: 'n jsvalue)
   \<and> loadConfig NotJSON = (default_config :: 'n jsvalue)
   \<and> loadConfig (Parsed content) = (content :: 'n jsvalue)
   \<and> as_SecretsConfig (default_config :: 'n jsvalue)
       = Some \<lparr> patterns = default_patterns,
                ignorePatterns = [str ''**/node_modules/**'', str ''**/.git/**'', str ''**/dist/**''],
                fileExtensions = [str ''.json'', str ''.yaml'', str ''.yml'', str ''.toml'',
                                  str ''.env''] \<rparr>
   \<and> map sp_name default_patterns
       = [str ''Generic API Key'', str ''Generic Secret'', str ''Generic Password'']
   \<and> map (\<lambda>p. js_includes (sp_pattern p) (str ''{16,}'')) default_patterns = [True, False, False]
   \<and> map (\<lambda>p. js_includes (sp_pattern p) (str ''{8,}'')) default_patterns = [False, True, False]
   \<and> map (\<lambda>p. js_includes (sp_pattern p) (str ''{4,}'')) default_patterns = [False, False, True]"
proof -
  have "as_SecretsConfig (default_config :: 'n jsvalue)
       = Some \<lparr> patterns = default_patterns,
                ignorePatterns = [str ''**/node_modules/**'', str ''**/.git/**'', str ''**/dist/**''],
                fileExtensions = [str ''.json'', str ''.yaml'', str ''.yml'', str ''.toml'',
                                  str ''.env''] \<rparr>"
    by (simp add: default_config_def default_patterns_def pattern_object_def str_def)
  moreover have "map (\<lambda>p. js_includes (sp_pattern p) (str ''{16,}'')) default_patterns
      = [True, False, False]"
    by (simp add: default_patterns_def quote_class_def space_star_def js_startsWith_def str_def)
  moreover have "map (\<lambda>p. js_includes (sp_pattern p) (str ''{8,}'')) default_patterns
      = [False, True, False]"
    by (simp add: default_patterns_def quote_class_def space_star_def js_startsWith_def str_def)
  moreover have "map (\<lambda>p. js_includes (sp_pattern p) (str ''{4,}'')) default_patterns
      = [False, False, True]"
    by (simp add: default_patterns_def quote_class_def space_star_def js_startsWith_def str_def)
  ultimately show ?thesis
    by (simp add: loadConfig_def default_patterns_def)
qed

theorem loadConfig_fallback_witness:
  "loadConfig (Parsed (JArr [] :: nat jsvalue)) = JArr []
   \<and> loadConfig (NoSuchFile :: nat jsvalue json_read) = default_config"
  using loadConfig_fallback [of "JArr [] :: nat jsvalue"] by simp

text \<open>
  The claim as the specification words it fails on a file that is JSON: a file that does
  not match the schema is returned, not replaced by the built-in configuration, and a file
  that matches the schema with no pattern gives an empty list of patterns.
\<close>

theorem loadConfig_schema_counterexample:
  "as_SecretsConfig (JObj [] :: nat jsvalue) = None
   \<and> loadConfig (Parsed (JObj [] :: nat jsvalue)) \<noteq> default_config
   \<and> map_option patterns
        (as_SecretsConfig
           (loadConfig (Parsed (JObj [(str ''patterns'', JArr []), (str ''ignorePatterns'', JArr []),
                                      (str ''fileExtensions'', JArr [])] :: nat jsvalue))))
       = Some []"
  by (simp add: loadConfig_def default_config_def str_def)

lemma closes_after_iff:
  "closes_after close cs \<longleftrightarrow>
     (\<exists>j<length cs. cs ! j = close \<and> (\<forall>k<j. \<not> js_line_terminator (cs ! k)))"
proof (induction cs)
  case Nil
  show ?case by simp
next
  case (Cons c cs)
  show ?case
  proof
    assume "closes_after close (c # cs)"
    then consider "c = close" | "\<not> js_line_terminator c" "closes_after close cs" by auto
    then show "\<exists>j<length (c # cs). (c # cs) ! j = close \<and> (\<forall>k<j. \<not> js_line_terminator ((c # cs) ! k))"
    proof cases
      case 1
      then show ?thesis by (intro exI [of _ 0]) simp
    next
      case 2
      with Cons.IH obtain j where j: "j < length cs" "cs ! j = close"
          "\<forall>k<j. \<not> js_line_terminator (cs ! k)"
        by blast
      have "\<forall>k<Suc j. \<not> js_line_terminator ((c # cs) ! k)"
      proof (intro allI impI)
        fix k assume "k < Suc j"
        then show "\<not> js_line_terminator ((c # cs) ! k)"
          using 2(1) j(3) by (cases k) auto
      qed
      with j show ?thesis by (intro exI [of _ "Suc j"]) simp
    qed
  next
    assume "\<exists>j<length (c # cs). (c # cs) ! j = close \<and> (\<forall>k<j. \<not> js_line_terminator ((c # cs) ! k))"
    then obtain j where j: "j < length (c # cs)" "(c # cs) ! j = close"
        "\<forall>k<j. \<not> js_line_terminator ((c # cs) ! k)"
      by blast
    show "closes_after close (c # cs)"
    proof (cases j)
      case 0
      with j show ?thesis by simp
    next
      case (Suc j')
      with j(3) have "\<not> js_line_terminator c" by force
      moreover have "\<forall>k<j'. \<not> js_line_terminator (cs ! k)"
      proof (intro allI impI)
        fix k assume "k < j'"
        then have "Suc k < j" using Suc by simp
        with j(3) have "\<not> js_line_terminator ((c # cs) ! Suc k)" by blast
        then show "\<not> js_line_terminator (cs ! k)" by simp
      qed
      ultimately show ?thesis using Cons.IH j(1,2) Suc by auto
    qed
  qed
qed

lemma has_pair_iff: "has_pair opener close t \<longleftrightarrow> same_line_pair opener close t"
proof (induction t)
  case Nil
  show ?case by (simp add: same_line_pair_def)
next
  case (Cons c cs)
  show ?case
  proof
    assume "has_pair opener close (c # cs)"
    then consider "c = opener" "closes_after close cs" | "has_pair opener close cs" by auto
    then show "same_line_pair opener close (c # cs)"
    proof cases
      case 1
      then obtain j where j: "j < length cs" "cs ! j = close"
          "\<forall>k<j. \<not> js_line_terminator (cs ! k)"
        by (auto simp: closes_after_iff)
      have "\<forall>k. 0 < k \<and> k < Suc j \<longrightarrow> \<not> js_line_terminator ((c # cs) ! k)"
      proof (intro allI impI)
        fix k assume "0 < k \<and> k < Suc j"
        then obtain k' where "k = Suc k'" "k' < j" by (cases k) auto
        with j(3) show "\<not> js_line_terminator ((c # cs) ! k)" by simp
      qed
      with 1(1) j(1,2) show ?thesis
        unfolding same_line_pair_def
        by (intro exI [of _ 0] exI [of _ "Suc j"]) simp
    next
      case 2
      with Cons.IH obtain i j where ij: "i < j" "j < length cs" "cs ! i = opener" "cs ! j = close"
          "\<forall>k. i < k \<and> k < j \<longrightarrow> \<not> js_line_terminator (cs ! k)"
        unfolding same_line_pair_def by blast
      have "\<forall>k. Suc i < k \<and> k < Suc j \<longrightarrow> \<not> js_line_terminator ((c # cs) ! k)"
      proof (intro allI impI)
        fix k assume "Suc i < k \<and> k < Suc j"
        then obtain k' where "k = Suc k'" "i < k'" "k' < j" by (cases k) auto
        with ij(5) show "\<not> js_line_terminator ((c # cs) ! k)" by simp
      qed
      with ij(1-4) show ?thesis
        unfolding same_line_pair_def
        by (intro exI [of _ "Suc i"] exI [of _ "Suc j"]) simp
    qed
  next
    assume "same_line_pair opener close (c # cs)"
    then obtain i j where ij: "i < j" "j < length (c # cs)" "(c # cs) ! i = opener"
        "(c # cs) ! j = close" "\<forall>k. i < k \<and> k < j \<longrightarrow> \<not> js_line_terminator ((c # cs) ! k)"
      unfolding same_line_pair_def by blast
    from ij(1) obtain j' where j': "j = Suc j'" by (cases j) auto
    show "has_pair opener close (c # cs)"
    proof (cases i)
      case 0
      have "\<forall>k<j'. \<not> js_line_terminator (cs ! k)"
      proof (intro allI impI)
        fix k assume "k < j'"
        then have "i < Suc k \<and> Suc k < j" using 0 j' by simp
        with ij(5) have "\<not> js_line_terminator ((c # cs) ! Suc k)" by blast
        then show "\<not> js_line_terminator (cs ! k)" by simp
      qed
      with ij(2,4) j' have "closes_after close cs"
        by (auto simp: closes_after_iff)
      with 0 ij(3) show ?thesis by simp
    next
      case (Suc i')
      have "\<forall>k. i' < k \<and> k < j' \<longrightarrow> \<not> js_line_terminator (cs ! k)"
      proof (intro allI impI)
        fix k assume "i' < k \<and> k < j'"
        then have "i < Suc k \<and> Suc k < j" using Suc j' by simp
        with ij(5) have "\<not> js_line_terminator ((c # cs) ! Suc k)" by blast
        then show "\<not> js_line_terminator (cs ! k)" by simp
      qed
      with ij(1-4) Suc j' have "same_line_pair opener close cs"
        unfolding same_line_pair_def
        by (intro exI [of _ i'] exI [of _ j']) simp
      with Cons.IH show ?thesis by simp
    qed
  qed
qed

lemma endsWithOpening_iff: "endsWithOpening t \<longleftrightarrow> opens_block t"
  by (simp add: endsWithOpening_def opens_block_def ends_with_opener_def has_pair_iff)

lemma startsWithClosing_iff: "startsWithClosing t \<longleftrightarrow> closing_prefixed t"
  by (cases t) (auto simp: startsWithClosing_def closing_prefixed_def)

lemma comment_only_iff:
  "js_startsWith t [47, 47] \<or> js_startsWith t [47, 42] \<or> js_startsWith t [42] \<longleftrightarrow> comment_only t"
proof -
  have "js_startsWith t p \<longleftrightarrow> (\<exists>rest. t = p @ rest)" for p :: jsstring
  proof
    assume "js_startsWith t p"
    then have "t = p @ drop (length p) t"
      by (metis append_take_drop_id js_startsWith_def)
    then show "\<exists>rest. t = p @ rest" ..
  next
    assume "\<exists>rest. t = p @ rest"
    then show "js_startsWith t p" by (auto simp: js_startsWith_def)
  qed
  then show ?thesis unfolding comment_only_def by blast
qed

lemma indent_text: "0 \<le> d \<Longrightarrow> js_repeat indentStr d = Some (replicate (2 * nat d) 32)"
proof -
  have "concat (replicate n [32, 32 :: nat]) = replicate (2 * n) 32" for n
    by (induction n) simp_all
  then show "0 \<le> d \<Longrightarrow> js_repeat indentStr d = Some (replicate (2 * nat d) 32)"
    by (simp add: js_repeat_def indentStr_def)
qed

lemma jsonc_line_level:
  assumes "0 \<le> indentLevel st" and "jsonc_line line st = Some st'"
  shows "0 \<le> indentLevel st'"
  using assms
  by (auto simp: jsonc_line_def Let_def indent_text split: if_splits option.splits)

lemma jsonc_line_total:
  assumes "0 \<le> indentLevel st"
  shows "\<exists>st'. jsonc_line line st = Some st'"
  using assms by (simp add: jsonc_line_def Let_def indent_text)

lemma jsonc_loop_total:
  "0 \<le> indentLevel st \<Longrightarrow> \<exists>st'. jsonc_loop lines st = Some st'"
proof (induction lines arbitrary: st)
  case Nil
  show ?case by simp
next
  case (Cons line lines)
  from jsonc_line_total [OF Cons.prems] obtain st1 where st1: "jsonc_line line st = Some st1"
    by blast
  with Cons.prems have "0 \<le> indentLevel st1" by (rule jsonc_line_level)
  with Cons.IH obtain st' where "jsonc_loop lines st1 = Some st'" by blast
  with st1 show ?case by simp
qed

lemma formatJSONC_total: "\<exists>out. formatJSONC content = Some out"
proof -
  obtain st where "jsonc_loop (split_lines content) \<lparr> formattedLines = [], indentLevel = 0 \<rparr> = Some st"
    using jsonc_loop_total [of "\<lparr> formattedLines = [], indentLevel = 0 \<rparr>"] by auto
  then show ?thesis by (simp add: formatJSONC_def)
qed

lemmas jsonc_eval = replicate_numeral_unfold str_def js_trim_def js_trim_by_def js_trimEnd_by_def js_trimStart_by_def
  js_space_def js_line_terminator_def js_startsWith_def js_endsWith_def
  startsWithClosing_def endsWithOpening_def ends_with_opener_def
  code_line_text_def inlineCommentMatch_def Let_def

lemma comment_not_closing: "comment_only t \<Longrightarrow> \<not> closing_prefixed t"
  by (auto simp: comment_only_def closing_prefixed_def)

lemma jsonc_line_step:
  "jsonc_line line \<lparr> formattedLines = acc, indentLevel = int d \<rparr>
     = Some \<lparr> formattedLines = acc @ [emitted_line d (js_trim line)],
              indentLevel = int (depth_after d (js_trim line)) \<rparr>"
proof -
  let ?t = "js_trim line"
  have m: "max 0 (int d - 1) = int (d - 1)" by (cases d) simp_all
  have i: "js_repeat indentStr (int k) = Some (replicate (2 * k) 32)" for k
    using indent_text [of "int k"] by simp
  show ?thesis
  proof (cases "?t = []")
    case True
    then show ?thesis
      by (simp add: jsonc_line_def Let_def emitted_line_def depth_after_def)
  next
    case False
    show ?thesis
    proof (cases "comment_only ?t")
      case True
      then have "js_startsWith ?t [47, 47] \<or> js_startsWith ?t [47, 42] \<or> js_startsWith ?t [42]"
        by (simp add: comment_only_iff)
      with True False comment_not_closing [OF True] show ?thesis
        by (simp add: jsonc_line_def Let_def emitted_line_def depth_after_def emit_depth_def i)
    next
      case c: False
      then have no: "\<not> (js_startsWith ?t [47, 47] \<or> js_startsWith ?t [47, 42] \<or> js_startsWith ?t [42])"
        by (simp add: comment_only_iff)
      show ?thesis
      proof (cases "closing_prefixed ?t")
        case True
        with c False no show ?thesis
          by (simp add: jsonc_line_def Let_def emitted_line_def depth_after_def emit_depth_def
              startsWithClosing_iff endsWithOpening_iff m i)
      next
        case p: False
        with c False no show ?thesis
          by (simp add: jsonc_line_def Let_def emitted_line_def depth_after_def emit_depth_def
              startsWithClosing_iff endsWithOpening_iff i)
      qed
    qed
  qed
qed

lemma jsonc_loop_steps:
  "jsonc_loop lines \<lparr> formattedLines = acc, indentLevel = int d \<rparr>
     = Some \<lparr> formattedLines = acc @ emitted d lines, indentLevel = int (final_depth d lines) \<rparr>"
proof (induction lines arbitrary: acc d)
  case Nil
  show ?case by simp
next
  case (Cons line lines)
  show ?case
    by (simp only: jsonc_loop.simps jsonc_line_step option.case Cons.IH emitted.simps
        final_depth.simps append_assoc append_Cons append_Nil)
qed

text \<open>
  C5. For every content, the loop of \<^verbatim>\<open>formatJSONC\<close> starts at depth 0, goes through
  the lines in their order and returns. A blank line is pushed empty and leaves the depth.
  A comment-only line is pushed at the current depth and leaves it. Any other line first
  lowers the depth by 1, not below 0, when it is closing-prefixed, is pushed at that depth,
  and then raises the depth by 1 exactly when it opens a block: it ends with an opening
  brace or bracket and has no same-line pair. A same-line pair is read as the expressions
  of the code read it: the closing character follows the opening one with no line
  terminator (a carriage return, a line or paragraph separator) between them. The output
  of \<^verbatim>\<open>formatJSONC\<close> is these lines joined, with one line feed at the end.
\<close>

theorem formatJSONC_depth:
  "jsonc_loop lines \<lparr> formattedLines = [], indentLevel = 0 \<rparr>
     = Some \<lparr> formattedLines = emitted 0 lines, indentLevel = int (final_depth 0 lines) \<rparr>
   \<and> formatJSONC content
     = Some (ensure_final_newline (collapse_final_newlines
               (js_join [10] (emitted 0 (split_lines content)))))"
  using jsonc_loop_steps [of _ "[]" 0] by (simp add: formatJSONC_def)


lemmas depth_eval = emitted_line_def depth_after_def emit_depth_def
  comment_only_iff [symmetric] startsWithClosing_iff [symmetric] endsWithOpening_iff [symmetric]
  split_lines_def strip_cr_def jsonc_eval

theorem formatJSONC_depth_witness:
  "formatJSONC (str ''{'' @ [10] @ str '' // note'' @ [10] @ str ''\"a\": ['' @ [10]
      @ str ''1,   // one'' @ [10, 10] @ str ''],'' @ [10] @ str ''\"b\": {},'' @ [10]
      @ str ''   \"c\": [1, 2],'' @ [10] @ str ''}'' @ [10, 10])
   = Some (str ''{'' @ [10] @ str ''  // note'' @ [10] @ str ''  \"a\": ['' @ [10]
      @ str ''    1, // one'' @ [10, 10] @ str ''  ],'' @ [10] @ str ''  \"b\": {},'' @ [10]
      @ str ''  \"c\": [1, 2],'' @ [10] @ str ''}'' @ [10])"
proof -
  let ?X = "str ''{'' @ [10] @ str '' // note'' @ [10] @ str ''\"a\": ['' @ [10]
      @ str ''1,   // one'' @ [10, 10] @ str ''],'' @ [10] @ str ''\"b\": {},'' @ [10]
      @ str ''   \"c\": [1, 2],'' @ [10] @ str ''}'' @ [10, 10]"
  have e: "emitted 0 (split_lines ?X)
      = [str ''{'', str ''  // note'', str ''  \"a\": ['', str ''    1, // one'', [],
         str ''  ],'', str ''  \"b\": {},'', str ''  \"c\": [1, 2],'', str ''}'', [], []]"
    by (simp add: depth_eval)
  show ?thesis
    using formatJSONC_depth [of "[]" ?X, THEN conjunct2] unfolding e
    by (simp add: collapse_final_newlines_def ensure_final_newline_def jsonc_eval)
qed

lemma formatJSONC_example:
  "formatJSONC (str ''{'' @ [10] @ str '' // note'' @ [10] @ str ''\"a\": ['' @ [10] @ str ''1,   // one'' @ [10, 10]
      @ str '']'' @ [10] @ str ''}'' @ [10, 10])
   = Some (str ''{'' @ [10] @ str ''  // note'' @ [10] @ str ''  \"a\": ['' @ [10]
      @ str ''    1, // one'' @ [10, 10] @ str ''  ]'' @ [10] @ str ''}'' @ [10])"
  by (simp add: formatJSONC_def split_lines_def strip_cr_def jsonc_line_def js_repeat_def indentStr_def
      collapse_final_newlines_def ensure_final_newline_def jsonc_eval)

lemmas toml_eval = formatTOML_def toml_line_def split_lines_def strip_cr_def
  ensure_final_newline_def js_trimEnd_def js_trimStart_def no_trailing_space_def jsonc_eval

text \<open>
  C9 fails on the code. A line that ends with its first equals sign has an empty value:
  the callback strips the line and then joins the key, \<^verbatim>\<open> = \<close> and the empty value,
  so the line of the output ends with a space. The second input is valid TOML, a
  multi-line string whose second line is \<^verbatim>\<open>x =\<close>.
\<close>

theorem formatTOML_empty_value:
  "formatTOML (str ''key ='') = str ''key = '' @ [10]
   \<and> map no_trailing_space (js_split 10 (formatTOML (str ''key =''))) = [False, True]
   \<and> formatTOML (str ''s = \"\"\"'' @ [10] @ str ''x ='' @ [10] @ str ''\"\"\"'' @ [10])
       = str ''s = \"\"\"'' @ [10] @ str ''x = '' @ [10] @ str ''\"\"\"'' @ [10]
   \<and> formatTOML (str ''a=b=c  '' @ [10] @ str ''# k=v'') = str ''a = b=c'' @ [10] @ str ''# k=v'' @ [10]"
proof -
  have a: "formatTOML (str ''key ='') = str ''key = '' @ [10]"
    by (simp add: toml_eval)
  have b: "map no_trailing_space (js_split 10 (str ''key = '' @ [10])) = [False, True]"
    by (simp add: toml_eval)
  have c: "formatTOML (str ''s = \"\"\"'' @ [10] @ str ''x ='' @ [10] @ str ''\"\"\"'' @ [10])
       = str ''s = \"\"\"'' @ [10] @ str ''x = '' @ [10] @ str ''\"\"\"'' @ [10]"
    by (simp add: toml_eval)
  have d: "formatTOML (str ''a=b=c  '' @ [10] @ str ''# k=v'') = str ''a = b=c'' @ [10] @ str ''# k=v'' @ [10]"
    by (simp add: toml_eval)
  from a b c d show ?thesis by simp
qed

section \<open>The round trip of \<^verbatim>\<open>JSON.stringify\<close> and \<^verbatim>\<open>JSON.parse\<close>\<close>

declare decimal.simps [simp del]

lemma hex_value_digit: "d < 16 \<Longrightarrow> hex_value (hex_digit d) = Some d"
  by (auto simp: hex_value_def hex_digit_def)

lemma hex_digits_value:
  assumes "c < 65536"
  shows "((c div 4096 mod 16 * 16 + c div 256 mod 16) * 16 + c div 16 mod 16) * 16 + c mod 16 = (c::nat)"
proof -
  have a: "c div 4096 mod 16 = c div 4096" using assms by simp
  have b: "c div 4096 * 16 + c div 256 mod 16 = c div 256"
    using div_mult_mod_eq [of "c div 256" 16] by (simp add: div_mult2_eq [symmetric])
  have c: "c div 256 * 16 + c div 16 mod 16 = c div 16"
    using div_mult_mod_eq [of "c div 16" 16] by (simp add: div_mult2_eq [symmetric])
  have d: "c div 16 * 16 + c mod 16 = c"
    by simp
  show ?thesis by (simp only: a b c d)
qed

lemma hex4_digits:
  assumes "a < 16" "b < 16" "c < 16" "d < 16"
  shows "hex4 (hex_digit a) (hex_digit b) (hex_digit c) (hex_digit d)
     = Some (((a * 16 + b) * 16 + c) * 16 + d)"
  unfolding hex4_def
  by (simp only: hex_value_digit [OF assms(1)] hex_value_digit [OF assms(2)]
      hex_value_digit [OF assms(3)] hex_value_digit [OF assms(4)] prod.case option.case)

lemma hex4_escape:
  assumes "c < 65536"
  shows "hex4 (hex_digit (c div 4096 mod 16)) (hex_digit (c div 256 mod 16))
           (hex_digit (c div 16 mod 16)) (hex_digit (c mod 16)) = Some c"
proof -
  have "hex4 (hex_digit (c div 4096 mod 16)) (hex_digit (c div 256 mod 16))
           (hex_digit (c div 16 mod 16)) (hex_digit (c mod 16))
      = Some (((c div 4096 mod 16 * 16 + c div 256 mod 16) * 16 + c div 16 mod 16) * 16 + c mod 16)"
    by (rule hex4_digits) simp_all
  then show ?thesis by (simp only: hex_digits_value [OF assms])
qed

lemma lex_string_escape:
  assumes "c < 65536"
  shows "lex_string (unicode_escape c @ s) =
     (case lex_string s of None \<Rightarrow> None | Some (x, r) \<Rightarrow> Some (c # x, r))"
  using hex4_escape [OF assms] by (simp add: unicode_escape_def)

lemma lex_string_short_escape:
  "unescape e = Some u \<Longrightarrow> e \<noteq> 117 \<Longrightarrow>
   lex_string (92 # e # s) = (case lex_string s of None \<Rightarrow> None | Some (x, r) \<Rightarrow> Some (u # x, r))"
  by simp

lemma lex_string_plain:
  "c \<noteq> 34 \<Longrightarrow> c \<noteq> 92 \<Longrightarrow> \<not> c < 32 \<Longrightarrow>
   lex_string (c # s) = (case lex_string s of None \<Rightarrow> None | Some (x, r) \<Rightarrow> Some (c # x, r))"
  by simp

lemma lex_string_quote_unit:
  "lex_string (quote_unit c @ s) =
     (case lex_string s of None \<Rightarrow> None | Some (x, r) \<Rightarrow> Some (c # x, r))"
proof -
  have short: "lex_string ([92, e] @ s) = (case lex_string s of None \<Rightarrow> None | Some (x, r) \<Rightarrow> Some (c # x, r))"
    if "unescape e = Some c" "e \<noteq> 117" for e
    using lex_string_short_escape [OF that] by simp
  show ?thesis
  proof (cases "c = 8 \<or> c = 9 \<or> c = 10 \<or> c = 12 \<or> c = 13 \<or> c = 34 \<or> c = 92")
    case True
    then consider "c = 8" | "c = 9" | "c = 10" | "c = 12" | "c = 13" | "c = 34" | "c = 92" by blast
    then show ?thesis
    proof cases
      case 1 then show ?thesis using short [of 98] by (simp add: quote_unit_def unescape_def)
    next
      case 2 then show ?thesis using short [of 116] by (simp add: quote_unit_def unescape_def)
    next
      case 3 then show ?thesis using short [of 110] by (simp add: quote_unit_def unescape_def)
    next
      case 4 then show ?thesis using short [of 102] by (simp add: quote_unit_def unescape_def)
    next
      case 5 then show ?thesis using short [of 114] by (simp add: quote_unit_def unescape_def)
    next
      case 6 then show ?thesis using short [of 34] by (simp add: quote_unit_def unescape_def)
    next
      case 7 then show ?thesis using short [of 92] by (simp add: quote_unit_def unescape_def)
    qed
  next
    case False
    show ?thesis
    proof (cases "c < 32 \<or> lead_surrogate c \<or> trail_surrogate c")
      case True
      then have "c < 65536" by (auto simp: lead_surrogate_def trail_surrogate_def)
      moreover from True False have "quote_unit c = unicode_escape c"
        by (simp add: quote_unit_def)
      ultimately show ?thesis by (simp only: lex_string_escape)
    next
      case plain: False
      with False have "lex_string (c # s) = (case lex_string s of None \<Rightarrow> None | Some (x, r) \<Rightarrow> Some (c # x, r))"
        by (intro lex_string_plain) auto
      moreover from plain False have "quote_unit c = [c]"
        by (simp add: quote_unit_def)
      ultimately show ?thesis by (simp only: append_Cons append_Nil)
    qed
  qed
qed

lemma lex_string_quote_units:
  "lex_string (quote_units s @ 34 # rest) = Some (s, rest)"
proof (induction s rule: quote_units.induct)
  case 1
  show ?case by simp
next
  case (2 c)
  have "lex_string (34 # rest) = Some ([], rest)" by simp
  then have "lex_string (quote_unit c @ 34 # rest) = Some ([c], rest)"
    by (simp only: lex_string_quote_unit option.case prod.case)
  then show ?case by (simp only: quote_units.simps)
next
  case (3 c d cs)
  show ?case
  proof (cases "lead_surrogate c \<and> trail_surrogate d")
    case True
    then have c: "c \<noteq> 34" "c \<noteq> 92" "\<not> c < 32" and d: "d \<noteq> 34" "d \<noteq> 92" "\<not> d < 32"
      by (auto simp: lead_surrogate_def trail_surrogate_def)
    have "lex_string (c # d # quote_units cs @ 34 # rest) = Some (c # d # cs, rest)"
      by (simp only: lex_string_plain [OF c] lex_string_plain [OF d] 3(1) [OF True]
          option.case prod.case)
    moreover from True have "quote_units (c # d # cs) = c # d # quote_units cs" by simp
    ultimately show ?thesis by (simp only: append_Cons)
  next
    case False
    have "lex_string (quote_unit c @ quote_units (d # cs) @ 34 # rest) = Some (c # d # cs, rest)"
      by (simp only: lex_string_quote_unit 3(2) [OF False] option.case prod.case)
    moreover from False have "quote_units (c # d # cs) = quote_unit c @ quote_units (d # cs)"
      by auto
    ultimately show ?thesis by (simp only: append_assoc)
  qed
qed

lemma Quote_Cons: "QuoteJSONString s @ rest = 34 # (quote_units s @ 34 # rest)"
  by (simp add: QuoteJSONString_def)

lemma lex_string_consumes:
  "lex_string s = Some (x, r) \<Longrightarrow> length r < length s"
proof (induction s arbitrary: x r rule: lex_string.induct)
  case 1
  then show ?case by simp
next
  case (2 c cs)
  then show ?case
    by (auto split: if_splits list.splits option.splits prod.splits) fastforce+
qed

lemma takeWhile_digit_append:
  "follow_ok rest \<Longrightarrow> takeWhile is_digit (r @ rest) = takeWhile is_digit r"
  by (induction r) (auto simp: follow_ok_def split: list.splits)

lemma dropWhile_digit_append:
  "follow_ok rest \<Longrightarrow> dropWhile is_digit (r @ rest) = dropWhile is_digit r @ rest"
  by (induction r) (auto simp: follow_ok_def split: list.splits)

lemma lex_int_append:
  "lex_int s = Some (p, r) \<Longrightarrow> follow_ok rest \<Longrightarrow> lex_int (s @ rest) = Some (p, r @ rest)"
  by (cases s)
    (auto simp: lex_int_def takeWhile_digit_append dropWhile_digit_append split: if_splits)

lemma lex_frac_append:
  "lex_frac s = Some (p, r) \<Longrightarrow> follow_ok rest \<Longrightarrow> lex_frac (s @ rest) = Some (p, r @ rest)"
proof (cases s)
  case Nil
  assume "lex_frac s = Some (p, r)" "follow_ok rest"
  with Nil show ?thesis
    by (cases rest) (auto simp: lex_frac_def follow_ok_def)
next
  case (Cons c cs)
  assume "lex_frac s = Some (p, r)" "follow_ok rest"
  with Cons show ?thesis
    by (auto simp: lex_frac_def takeWhile_digit_append dropWhile_digit_append split: if_splits)
qed

lemma lex_exp_append:
  "lex_exp s = Some (p, r) \<Longrightarrow> follow_ok rest \<Longrightarrow> lex_exp (s @ rest) = Some (p, r @ rest)"
proof (cases s)
  case Nil
  assume "lex_exp s = Some (p, r)" "follow_ok rest"
  with Nil show ?thesis
    by (cases rest) (auto simp: lex_exp_def follow_ok_def)
next
  case (Cons c cs)
  assume a: "lex_exp s = Some (p, r)" "follow_ok rest"
  show ?thesis
  proof (cases "c = 101 \<or> c = 69")
    case False
    with a Cons show ?thesis by (auto simp: lex_exp_def)
  next
    case True
    show ?thesis
    proof (cases cs)
      case Nil
      with a Cons True show ?thesis by (auto simp: lex_exp_def)
    next
      case (Cons d ds)
      with a \<open>s = c # cs\<close> True show ?thesis
        by (auto simp: lex_exp_def Let_def takeWhile_digit_append dropWhile_digit_append
            split: if_splits)
    qed
  qed
qed

lemma lex_number_append:
  assumes "lex_number s = Some (p, r)" and "follow_ok rest"
  shows "lex_number (s @ rest) = Some (p, r @ rest)"
proof -
  define sg where "sg = (case s of [] \<Rightarrow> [] | c # r \<Rightarrow> if c = 45 then [45::nat] else [])"
  define s1 where "s1 = (case s of [] \<Rightarrow> s | c # r \<Rightarrow> if c = 45 then r else s)"
  have start: "(case s of [] \<Rightarrow> ([], s) | c # r \<Rightarrow> if c = 45 then ([45], r) else ([], s)) = (sg, s1)"
    by (auto simp: sg_def s1_def split: list.splits)
  from assms(1) obtain ip s2 fp s3 ep where
    i: "lex_int s1 = Some (ip, s2)" and f: "lex_frac s2 = Some (fp, s3)"
    and e: "lex_exp s3 = Some (ep, r)" and p: "p = sg @ ip @ fp @ ep"
    unfolding lex_number_def start by (auto simp: Let_def split: option.splits)
  from i have "s1 \<noteq> []" by (auto simp: lex_int_def)
  then have "s \<noteq> []" by (auto simp: s1_def)
  then have start': "(case s @ rest of [] \<Rightarrow> ([], s @ rest) | c # r \<Rightarrow> if c = 45 then ([45], r) else ([], s @ rest))
      = (sg, s1 @ rest)"
    by (cases s) (auto simp: sg_def s1_def)
  show ?thesis
    unfolding lex_number_def start'
    using lex_int_append [OF i assms(2)] lex_frac_append [OF f assms(2)]
      lex_exp_append [OF e assms(2)] p
    by (simp add: Let_def)
qed

lemma takeWhile_dropWhile_length: "length (dropWhile P xs) \<le> length xs"
  by (induction xs) auto

lemma lex_number_first:
  assumes "lex_number s = Some (p, r)"
  shows "s \<noteq> [] \<and> (hd s = 45 \<or> is_digit (hd s)) \<and> s = p @ r \<and> p \<noteq> []"
proof -
  have int: "lex_int u = Some (a, b) \<Longrightarrow> u = a @ b \<and> a \<noteq> [] \<and> is_digit (hd u)" for u a b
    by (cases u) (auto simp: lex_int_def is_digit_def split: if_splits)
  have frac: "lex_frac u = Some (a, b) \<Longrightarrow> u = a @ b" for u a b
    by (cases u) (auto simp: lex_frac_def split: if_splits)
  have exp: "lex_exp u = Some (a, b) \<Longrightarrow> u = a @ b" for u a b
    by (cases u) (auto simp: lex_exp_def Let_def split: if_splits list.splits)
  show ?thesis
  proof (cases s)
    case Nil
    with assms show ?thesis by (auto simp: lex_number_def lex_int_def)
  next
    case (Cons c cs)
    show ?thesis
    proof (cases "c = 45")
      case True
      with assms Cons obtain ip s2 fp s3 ep where
        "lex_int cs = Some (ip, s2)" "lex_frac s2 = Some (fp, s3)" "lex_exp s3 = Some (ep, r)"
        "p = [45] @ ip @ fp @ ep"
        by (auto simp: lex_number_def Let_def split: option.splits)
      with int [of cs ip s2] frac [of s2 fp s3] exp [of s3 ep r] Cons True show ?thesis by auto
    next
      case False
      with assms Cons obtain ip s2 fp s3 ep where
        "lex_int s = Some (ip, s2)" "lex_frac s2 = Some (fp, s3)" "lex_exp s3 = Some (ep, r)"
        "p = ip @ fp @ ep"
        by (auto simp: lex_number_def Let_def split: option.splits)
      then have "s = ip @ s2" "ip \<noteq> []" "is_digit (hd s)" "s2 = fp @ s3" "s3 = ep @ r"
          "p = ip @ fp @ ep"
        using int [of s ip s2] frac [of s2 fp s3] exp [of s3 ep r] by blast+
      with Cons show ?thesis by simp
    qed
  qed
qed

lemma json_number_append:
  "json_number t \<Longrightarrow> follow_ok rest \<Longrightarrow> lex_number (t @ rest) = Some (t, rest)"
  using lex_number_append [of t t "[]" rest] by (simp add: json_number_def)

lemma json_number_first:
  "json_number t \<Longrightarrow> t \<noteq> [] \<and> (hd t = 45 \<or> is_digit (hd t))"
  using lex_number_first [of t t "[]"] by (simp add: json_number_def)

lemma array_index_inject:
  "is_array_index a \<Longrightarrow> is_array_index b \<Longrightarrow> index_value a = index_value b \<Longrightarrow> a = b"
  by (metis is_array_index_def)

lemma keys_insert_index:
  "set (map fst (insert_index k v ms)) = insert k (set (map fst ms))"
proof (induction ms)
  case Nil
  show ?case by simp
next
  case (Cons m ms)
  obtain k' v' where m: "m = (k', v')" by (cases m)
  show ?case
  proof (cases "is_array_index k' \<and> index_value k' < index_value k")
    case True
    then have "insert_index k v (m # ms) = (k', v') # insert_index k v ms" by (simp add: m)
    with Cons.IH show ?thesis by (simp add: m insert_commute del: set_map)
  next
    case False
    then have "insert_index k v (m # ms) = (k, v) # (k', v') # ms" by (auto simp: m)
    then show ?thesis by (simp add: m)
  qed
qed

lemma distinct_insert_index:
  "distinct (map fst ms) \<Longrightarrow> k \<notin> set (map fst ms) \<Longrightarrow> distinct (map fst (insert_index k v ms))"
proof (induction ms)
  case Nil
  show ?case by simp
next
  case (Cons m ms)
  obtain k' v' where m: "m = (k', v')" by (cases m)
  from Cons.prems have "distinct (map fst (insert_index k v ms))"
    using Cons.IH by simp
  with Cons.prems show ?case
    by (auto simp: m keys_insert_index simp del: set_map)
qed

lemma sorted_insert_index:
  assumes "sorted_wrt key_before (map fst ms)" and "is_array_index k" and "k \<notin> set (map fst ms)"
  shows "sorted_wrt key_before (map fst (insert_index k v ms))"
  using assms
proof (induction ms)
  case Nil
  show ?case by simp
next
  case (Cons m ms)
  obtain k' v' where m: "m = (k', v')" by (cases m)
  from Cons.prems have sorted: "sorted_wrt key_before (map fst ms)"
    and before: "\<forall>x\<in>set (map fst ms). key_before k' x"
    and new: "k \<notin> set (map fst ms)" "k \<noteq> k'"
    by (auto simp: m)
  show ?case
  proof (cases "is_array_index k' \<and> index_value k' < index_value k")
    case True
    have "sorted_wrt key_before (map fst (insert_index k v ms))"
      using Cons.IH sorted Cons.prems(2) new(1) by blast
    moreover have "\<forall>x\<in>set (map fst (insert_index k v ms)). key_before k' x"
      using before True by (auto simp: keys_insert_index key_before_def simp del: set_map)
    ultimately show ?thesis using True by (simp add: m)
  next
    case False
    have kk': "key_before k k'"
    proof (cases "is_array_index k'")
      case idx: True
      with False have "index_value k \<le> index_value k'" by simp
      moreover have "index_value k \<noteq> index_value k'"
        using array_index_inject [OF Cons.prems(2) idx] new(2) by blast
      ultimately show ?thesis using Cons.prems(2) by (simp add: key_before_def)
    next
      case False
      then show ?thesis by (simp add: key_before_def)
    qed
    have "key_before k x" if "x \<in> set (map fst ms)" for x
    proof (cases "is_array_index x")
      case True
      from before that have "key_before k' x" by blast
      with True have "is_array_index k'" "index_value k' < index_value x"
        by (auto simp: key_before_def)
      with kk' have "index_value k < index_value x" by (auto simp: key_before_def)
      with Cons.prems(2) show ?thesis by (simp add: key_before_def)
    next
      case False
      then show ?thesis by (simp add: key_before_def)
    qed
    with kk' sorted before False show ?thesis by (auto simp: m)
  qed
qed

lemma keys_replace:
  "map fst (map (\<lambda>(k', v'). if k' = k then (k', v) else (k', v')) ms) = map fst ms"
  by (induction ms) auto

lemma canonical_keys_obj_put:
  assumes "canonical_keys (map fst ms)"
  shows "canonical_keys (map fst (obj_put k v ms))"
proof (cases "k \<in> fst ` set ms")
  case True
  then have "obj_put k v ms = map (\<lambda>(k', v'). if k' = k then (k', v) else (k', v')) ms"
    by (simp add: obj_put_def)
  with assms show ?thesis by (simp only: keys_replace)
next
  case False
  then have new: "k \<notin> set (map fst ms)" by simp
  show ?thesis
  proof (cases "is_array_index k")
    case True
    with assms new False show ?thesis
      by (simp add: obj_put_def canonical_keys_def distinct_insert_index sorted_insert_index
          del: set_map)
  next
    case nonindex: False
    with assms new False show ?thesis
      by (auto simp: obj_put_def canonical_keys_def sorted_wrt_append key_before_def)
  qed
qed

lemma insert_index_last:
  assumes "\<forall>x\<in>set (map fst ms). is_array_index x \<and> index_value x < index_value k"
  shows "insert_index k v ms = ms @ [(k, v)]"
  using assms by (induction ms) auto

lemma obj_put_append:
  assumes "canonical_keys (map fst ms @ [k])"
  shows "obj_put k v ms = ms @ [(k, v)]"
proof -
  from assms have new: "k \<notin> fst ` set ms"
    by (auto simp: canonical_keys_def)
  from assms have before: "\<forall>x\<in>set (map fst ms). key_before x k"
    by (auto simp: canonical_keys_def sorted_wrt_append)
  show ?thesis
  proof (cases "is_array_index k")
    case True
    with before have "\<forall>x\<in>set (map fst ms). is_array_index x \<and> index_value x < index_value k"
      by (auto simp: key_before_def)
    then have "insert_index k v ms = ms @ [(k, v)]" by (rule insert_index_last)
    with new True show ?thesis by (simp add: obj_put_def)
  next
    case False
    with new show ?thesis by (simp add: obj_put_def)
  qed
qed

lemma values_obj_put:
  "snd ` set (obj_put k v ms) \<subseteq> insert v (snd ` set ms)"
proof -
  have "snd ` set (insert_index k v ms) \<subseteq> insert v (snd ` set ms)"
  proof (induction ms)
    case Nil
    show ?case by simp
  next
    case (Cons m ms)
    obtain k' v' where m: "m = (k', v')" by (cases m)
    show ?case
    proof (cases "is_array_index k' \<and> index_value k' < index_value k")
      case True
      then have "insert_index k v (m # ms) = (k', v') # insert_index k v ms" by (simp add: m)
      with Cons.IH show ?thesis by (auto simp: m)
    next
      case False
      then have "insert_index k v (m # ms) = (k, v) # (k', v') # ms" by (auto simp: m)
      then show ?thesis by (auto simp: m)
    qed
  qed
  moreover have "snd ` set (map (\<lambda>(k', v'). if k' = k then (k', v) else (k', v')) ms)
      \<subseteq> insert v (snd ` set ms)"
    by (force split: if_splits)
  ultimately show ?thesis by (auto simp: obj_put_def)
qed

lemma serialize_start:
  assumes "number_texts ns"
  shows "\<exists>c cs. serialize ns ind v = c # cs \<and> value_start c"
proof (cases v)
  case (JNum n)
  show ?thesis
  proof (cases "ns n")
    case None
    with JNum show ?thesis by (simp add: value_start_def)
  next
    case (Some t)
    with assms have "json_number t" by (auto simp: number_texts_def)
    from json_number_first [OF this] obtain c cs where "t = c # cs" "c = 45 \<or> is_digit c"
      by (cases t) auto
    with JNum Some show ?thesis by (auto simp: value_start_def)
  qed
qed (auto simp: value_start_def QuoteJSONString_def)

lemma value_start_not_ws: "value_start c \<Longrightarrow> \<not> json_ws c"
  by (auto simp: value_start_def json_ws_def is_digit_def)

lemma skip_ws_spaces:
  "\<forall>c\<in>set ind. c = 32 \<Longrightarrow> \<not> json_ws d \<Longrightarrow> skip_ws (ind @ d # s) = d # s"
  by (induction ind) (auto simp: skip_ws_def json_ws_def)

lemma skip_ws_newline_indent:
  "\<forall>c\<in>set ind. c = 32 \<Longrightarrow> \<not> json_ws d \<Longrightarrow> skip_ws (10 # ind @ d # s) = d # s"
  using skip_ws_spaces [of ind d s] by (simp add: skip_ws_def json_ws_def)

lemma skip_ws_nonws: "\<not> json_ws d \<Longrightarrow> skip_ws (d # s) = d # s"
  by (simp add: skip_ws_def)

lemma follow_ok_simps:
  "follow_ok []" "follow_ok (10 # s)" "follow_ok (44 # s)"
  by (simp_all add: follow_ok_def is_digit_def)

lemma parse_value_atom:
  assumes nt: "number_texts ns" and fo: "follow_ok rest" and f: "0 < f"
    and atom: "\<And>vs. v \<noteq> JArr vs" "\<And>ms. v \<noteq> JObj ms"
  shows "parse_value nl f (serialize ns ind v @ rest) = Ok (renorm nl ns v, rest)"
proof -
  from f obtain f' where f': "f = Suc f'" by (cases f) auto
  show ?thesis
  proof (cases v)
    case JNull
    then show ?thesis by (simp add: f' js_startsWith_def)
  next
    case (JBool b)
    then show ?thesis by (cases b) (simp_all add: f' js_startsWith_def)
  next
    case (JStr s)
    have "lex_string (quote_units s @ 34 # rest) = Some (s, rest)"
      by (rule lex_string_quote_units)
    with JStr show ?thesis
      by (simp add: f' QuoteJSONString_def del: lex_string.simps)
  next
    case (JNum n)
    show ?thesis
    proof (cases "ns n")
      case None
      with JNum show ?thesis by (simp add: f' js_startsWith_def)
    next
      case (Some t)
      with nt have jn: "json_number t" by (auto simp: number_texts_def)
      from json_number_first [OF jn] obtain c cs where t: "t = c # cs" "c = 45 \<or> is_digit c"
        by (cases t) auto
      have lex: "lex_number ((c # cs) @ rest) = Some (c # cs, rest)"
        using json_number_append [OF jn fo] t by simp
      from t(2) have c: "c \<noteq> 123" "c \<noteq> 91" "c \<noteq> 34" "c \<noteq> 116" "c \<noteq> 102" "c \<noteq> 110"
        by (auto simp: is_digit_def)
      have "parse_value nl (Suc f') (c # cs @ rest) = Ok (JNum (nl (c # cs)), rest)"
        using lex c by (simp add: js_startsWith_def)
      with JNum Some t show ?thesis by (simp add: f')
    qed
  next
    case (JArr vs)
    with atom show ?thesis by blast
  next
    case (JObj ms)
    with atom show ?thesis by blast
  qed
qed

lemma js_join_Cons:
  "js_join sep (x # xs) = x @ (if xs = [] then [] else sep @ js_join sep xs)"
  by (cases xs) simp_all

lemma skip_to_value:
  assumes "number_texts ns" and "\<forall>c\<in>set i. c = 32"
  shows "skip_ws (10 # i @ serialize ns j v @ r) = serialize ns j v @ r"
proof -
  from serialize_start [OF assms(1)] obtain c cs where s: "serialize ns j v = c # cs" "value_start c"
    by blast
  from s(2) have "\<not> json_ws c" by (rule value_start_not_ws)
  from skip_ws_newline_indent [OF assms(2) this, of "cs @ r"] s(1) show ?thesis by simp
qed

lemma skip_to_values:
  assumes "number_texts ns" and "\<forall>c\<in>set i. c = 32"
  shows "skip_ws (10 # i @ js_join sep (map (serialize ns j) (v # vs)) @ r)
       = js_join sep (map (serialize ns j) (v # vs)) @ r"
proof -
  have "js_join sep (map (serialize ns j) (v # vs)) @ r
      = serialize ns j v @ ((if vs = [] then [] else sep @ js_join sep (map (serialize ns j) vs)) @ r)"
    by (simp add: js_join_Cons)
  then show ?thesis using skip_to_value [OF assms] by simp
qed

lemma parse_elements_serialize:
  assumes nt: "number_texts ns"
    and sp: "\<forall>c\<in>set ind'. c = 32" "\<forall>c\<in>set ind. c = 32"
  shows "vs \<noteq> [] \<Longrightarrow>
    (\<And>v rest f. v \<in> set vs \<Longrightarrow> follow_ok rest \<Longrightarrow>
        2 * length (serialize ns ind' v @ rest) < f \<Longrightarrow>
        parse_value nl f (serialize ns ind' v @ rest) = Ok (renorm nl ns v, rest)) \<Longrightarrow>
    2 * length (js_join ([44, 10] @ ind') (map (serialize ns ind') vs) @ 10 # ind @ 93 # rest) + 1 < f \<Longrightarrow>
    parse_elements nl f (js_join ([44, 10] @ ind') (map (serialize ns ind') vs) @ 10 # ind @ 93 # rest) acc
      = Ok (JArr (acc @ map (renorm nl ns) vs), rest)"
proof (induction vs arbitrary: acc f)
  case Nil
  then show ?case by simp
next
  case (Cons v vs)
  from Cons.prems(3) obtain f1 where f: "f = Suc f1" by (cases f) auto
  let ?tail = "10 # ind @ 93 # rest"
  show ?case
  proof (cases "vs = []")
    case True
    have fuel: "2 * length (serialize ns ind' v @ ?tail) < f1"
      using Cons.prems(3) True f by simp
    have pv: "parse_value nl f1 (serialize ns ind' v @ ?tail) = Ok (renorm nl ns v, ?tail)"
    proof (rule Cons.prems(2))
      show "v \<in> set (v # vs)" by simp
      show "follow_ok ?tail" by (simp add: follow_ok_simps)
      show "2 * length (serialize ns ind' v @ ?tail) < f1" by (rule fuel)
    qed
    have sk: "skip_ws ?tail = 93 # rest"
      by (rule skip_ws_newline_indent [OF sp(2)]) (simp add: json_ws_def)
    have "parse_elements nl (Suc f1) (serialize ns ind' v @ ?tail) acc
        = Ok (JArr (acc @ [renorm nl ns v]), rest)"
      using pv sk by simp
    with True show ?thesis by (simp add: f)
  next
    case False
    then obtain w ws where vs: "vs = w # ws" by (cases vs) auto
    let ?X = "js_join ([44, 10] @ ind') (map (serialize ns ind') vs) @ ?tail"
    have shape: "js_join ([44, 10] @ ind') (map (serialize ns ind') (v # vs)) @ ?tail
        = serialize ns ind' v @ 44 # 10 # ind' @ ?X"
      using False by (simp add: js_join_Cons)
    have fuel: "2 * length (serialize ns ind' v @ 44 # 10 # ind' @ ?X) < f1"
      using Cons.prems(3) f unfolding shape by simp
    have pv: "parse_value nl f1 (serialize ns ind' v @ 44 # 10 # ind' @ ?X)
        = Ok (renorm nl ns v, 44 # 10 # ind' @ ?X)"
    proof (rule Cons.prems(2))
      show "v \<in> set (v # vs)" by simp
      show "follow_ok (44 # 10 # ind' @ ?X)" by (simp add: follow_ok_simps)
      show "2 * length (serialize ns ind' v @ 44 # 10 # ind' @ ?X) < f1" by (rule fuel)
    qed
    have sk1: "skip_ws (44 # 10 # ind' @ ?X) = 44 # 10 # ind' @ ?X"
      by (rule skip_ws_nonws) (simp add: json_ws_def)
    have sk2: "skip_ws (10 # ind' @ ?X) = ?X"
      unfolding vs by (rule skip_to_values [OF nt sp(1)])
    have fuel2: "2 * length ?X + 1 < f1"
      using fuel by simp
    have rec: "parse_elements nl f1 ?X (acc @ [renorm nl ns v])
        = Ok (JArr ((acc @ [renorm nl ns v]) @ map (renorm nl ns) vs), rest)"
      using False Cons.prems(2) fuel2 by (intro Cons.IH) auto
    have "parse_elements nl (Suc f1) (serialize ns ind' v @ 44 # 10 # ind' @ ?X) acc
        = Ok (JArr (acc @ map (renorm nl ns) (v # vs)), rest)"
      using pv sk1 sk2 rec by simp
    then show ?thesis unfolding shape f .
  qed
qed

lemma canonical_keys_prefix: "canonical_keys (xs @ ys) \<Longrightarrow> canonical_keys xs"
  by (auto simp: canonical_keys_def sorted_wrt_append)

lemma member_text:
  "(\<lambda>(k, v). QuoteJSONString k @ [58, 32] @ serialize ns j v) (k, v) @ r
     = 34 # quote_units k @ 34 # 58 # 32 # serialize ns j v @ r"
  by (simp add: QuoteJSONString_def)

lemma skip_to_members:
  assumes "\<forall>c\<in>set i. c = 32"
  shows "skip_ws (10 # i @ js_join sep (map (\<lambda>(k, v). QuoteJSONString k @ [58, 32] @ serialize ns j v) (m # ms)) @ r)
       = js_join sep (map (\<lambda>(k, v). QuoteJSONString k @ [58, 32] @ serialize ns j v) (m # ms)) @ r"
proof -
  obtain k v where m: "m = (k, v)" by (cases m)
  have "\<exists>t. js_join sep (map (\<lambda>(k, v). QuoteJSONString k @ [58, 32] @ serialize ns j v) (m # ms)) @ r = 34 # t"
    by (simp add: js_join_Cons m QuoteJSONString_def)
  then obtain t where t: "js_join sep (map (\<lambda>(k, v). QuoteJSONString k @ [58, 32] @ serialize ns j v) (m # ms)) @ r = 34 # t"
    by blast
  have "\<not> json_ws 34" by (simp add: json_ws_def)
  from skip_ws_newline_indent [OF assms this, of t] t show ?thesis by simp
qed

lemma skip_space_value:
  assumes "number_texts ns"
  shows "skip_ws (32 # serialize ns j v @ r) = serialize ns j v @ r"
proof -
  from serialize_start [OF assms] obtain c cs where s: "serialize ns j v = c # cs" "value_start c"
    by blast
  from s(2) have "\<not> json_ws c" by (rule value_start_not_ws)
  then show ?thesis using s(1) by (simp add: skip_ws_def json_ws_def)
qed

lemma parse_members_serialize:
  assumes nt: "number_texts ns"
    and sp: "\<forall>c\<in>set ind'. c = 32" "\<forall>c\<in>set ind. c = 32"
  shows "ms \<noteq> [] \<Longrightarrow> canonical_keys (map fst (done @ ms)) \<Longrightarrow>
    (\<And>m rest f. m \<in> set ms \<Longrightarrow> follow_ok rest \<Longrightarrow>
        2 * length (serialize ns ind' (snd m) @ rest) < f \<Longrightarrow>
        parse_value nl f (serialize ns ind' (snd m) @ rest) = Ok (renorm nl ns (snd m), rest)) \<Longrightarrow>
    2 * length (js_join ([44, 10] @ ind')
          (map (\<lambda>(k, v). QuoteJSONString k @ [58, 32] @ serialize ns ind' v) ms)
        @ 10 # ind @ 125 # rest) + 1 < f \<Longrightarrow>
    parse_members nl f
      (js_join ([44, 10] @ ind')
          (map (\<lambda>(k, v). QuoteJSONString k @ [58, 32] @ serialize ns ind' v) ms)
        @ 10 # ind @ 125 # rest)
      (map (\<lambda>m. (fst m, renorm nl ns (snd m))) done)
      = Ok (JObj (map (\<lambda>m. (fst m, renorm nl ns (snd m))) (done @ ms)), rest)"
proof (induction ms arbitrary: "done" f)
  case Nil
  then show ?case by simp
next
  case (Cons m ms)
  obtain k v where m: "m = (k, v)" by (cases m)
  from Cons.prems(4) obtain f1 where f: "f = Suc f1" by (cases f) auto
  let ?tail = "10 # ind @ 125 # rest"
  let ?mem = "\<lambda>(k, v). QuoteJSONString k @ [58, 32] @ serialize ns ind' v"
  let ?rn = "\<lambda>m. (fst m, renorm nl ns (snd m))"
  have "canonical_keys (map fst done @ [k])"
    using Cons.prems(2) canonical_keys_prefix [of "map fst done @ [k]" "map fst ms"] by (simp add: m)
  then have "canonical_keys (map fst (map ?rn done) @ [k])"
    by (simp add: comp_def)
  then have put: "obj_put k (renorm nl ns v) (map ?rn done) = map ?rn (done @ [m])"
    by (simp add: obj_put_append m)
  show ?case
  proof (cases "ms = []")
    case True
    have shape: "js_join ([44, 10] @ ind') (map ?mem (m # ms)) @ ?tail
        = 34 # quote_units k @ 34 # 58 # 32 # serialize ns ind' v @ ?tail"
      using True by (simp add: m QuoteJSONString_def)
    have fuel: "2 * length (serialize ns ind' v @ ?tail) < f1"
      using Cons.prems(4) f unfolding shape by simp
    have pv: "parse_value nl f1 (serialize ns ind' v @ ?tail) = Ok (renorm nl ns v, ?tail)"
    proof -
      have "parse_value nl f1 (serialize ns ind' (snd m) @ ?tail) = Ok (renorm nl ns (snd m), ?tail)"
      proof (rule Cons.prems(3))
        show "m \<in> set (m # ms)" by simp
        show "follow_ok ?tail" by (simp add: follow_ok_simps)
        show "2 * length (serialize ns ind' (snd m) @ ?tail) < f1" using fuel by (simp add: m)
      qed
      then show ?thesis by (simp add: m)
    qed
    have lx: "lex_string (quote_units k @ 34 # 58 # 32 # serialize ns ind' v @ ?tail)
        = Some (k, 58 # 32 # serialize ns ind' v @ ?tail)"
      by (rule lex_string_quote_units)
    have sk0: "skip_ws (58 # 32 # serialize ns ind' v @ ?tail) = 58 # 32 # serialize ns ind' v @ ?tail"
      by (rule skip_ws_nonws) (simp add: json_ws_def)
    have sk1: "skip_ws (32 # serialize ns ind' v @ ?tail) = serialize ns ind' v @ ?tail"
      by (rule skip_space_value [OF nt])
    have sk: "skip_ws ?tail = 125 # rest"
      by (rule skip_ws_newline_indent [OF sp(2)]) (simp add: json_ws_def)
    have "parse_members nl (Suc f1) (34 # quote_units k @ 34 # 58 # 32 # serialize ns ind' v @ ?tail)
            (map ?rn done)
        = Ok (JObj (map ?rn (done @ [m])), rest)"
      using lx sk0 sk1 pv sk put by (simp del: lex_string.simps)
    with True show ?thesis unfolding shape f by simp
  next
    case False
    then obtain w ws where ms: "ms = w # ws" by (cases ms) auto
    let ?X = "js_join ([44, 10] @ ind') (map ?mem ms) @ ?tail"
    let ?R = "44 # 10 # ind' @ ?X"
    have shape: "js_join ([44, 10] @ ind') (map ?mem (m # ms)) @ ?tail
        = 34 # quote_units k @ 34 # 58 # 32 # serialize ns ind' v @ ?R"
      using False by (simp add: m QuoteJSONString_def js_join_Cons)
    have fuel: "2 * length (serialize ns ind' v @ ?R) < f1"
      using Cons.prems(4) f unfolding shape by simp
    have pv: "parse_value nl f1 (serialize ns ind' v @ ?R) = Ok (renorm nl ns v, ?R)"
    proof -
      have "parse_value nl f1 (serialize ns ind' (snd m) @ ?R) = Ok (renorm nl ns (snd m), ?R)"
      proof (rule Cons.prems(3))
        show "m \<in> set (m # ms)" by simp
        show "follow_ok ?R" by (simp add: follow_ok_simps)
        show "2 * length (serialize ns ind' (snd m) @ ?R) < f1" using fuel by (simp add: m)
      qed
      then show ?thesis by (simp add: m)
    qed
    have lx: "lex_string (quote_units k @ 34 # 58 # 32 # serialize ns ind' v @ ?R)
        = Some (k, 58 # 32 # serialize ns ind' v @ ?R)"
      by (rule lex_string_quote_units)
    have sk0: "skip_ws (58 # 32 # serialize ns ind' v @ ?R) = 58 # 32 # serialize ns ind' v @ ?R"
      by (rule skip_ws_nonws) (simp add: json_ws_def)
    have sk1: "skip_ws (32 # serialize ns ind' v @ ?R) = serialize ns ind' v @ ?R"
      by (rule skip_space_value [OF nt])
    have sk2: "skip_ws ?R = ?R"
      by (rule skip_ws_nonws) (simp add: json_ws_def)
    have sk3: "skip_ws (10 # ind' @ ?X) = ?X"
      unfolding ms by (rule skip_to_members [OF sp(1)])
    have fuel2: "2 * length ?X + 1 < f1"
      using fuel by simp
    have rec: "parse_members nl f1 ?X (map ?rn (done @ [m]))
        = Ok (JObj (map ?rn ((done @ [m]) @ ms)), rest)"
    proof (rule Cons.IH)
      show "ms \<noteq> []" by (rule False)
      show "canonical_keys (map fst ((done @ [m]) @ ms))" using Cons.prems(2) by simp
      show "2 * length ?X + 1 < f1" by (rule fuel2)
      show "parse_value nl f' (serialize ns ind' (snd m') @ r') = Ok (renorm nl ns (snd m'), r')"
        if "m' \<in> set ms" "follow_ok r'" "2 * length (serialize ns ind' (snd m') @ r') < f'"
        for m' r' f'
        using that by (intro Cons.prems(3)) auto
    qed
    have "parse_members nl (Suc f1) (34 # quote_units k @ 34 # 58 # 32 # serialize ns ind' v @ ?R)
            (map ?rn done)
        = Ok (JObj (map ?rn (done @ m # ms)), rest)"
      using lx sk0 sk1 sk2 sk3 pv put rec by (simp del: lex_string.simps)
    then show ?thesis unfolding shape f .
  qed
qed

lemma value_start_not_close: "value_start c \<Longrightarrow> c \<noteq> 93 \<and> c \<noteq> 125"
  by (auto simp: value_start_def is_digit_def)

lemma parse_serialize:
  assumes nt: "number_texts ns"
  shows "canonical v \<Longrightarrow> \<forall>c\<in>set ind. c = 32 \<Longrightarrow> follow_ok rest \<Longrightarrow>
    2 * length (serialize ns ind v @ rest) < f \<Longrightarrow>
    parse_value nl f (serialize ns ind v @ rest) = Ok (renorm nl ns v, rest)"
proof (induction v arbitrary: ind rest f)
  case (JArr vs)
  from JArr.prems(4) obtain f1 where f: "f = Suc f1" by (cases f) auto
  show ?case
  proof (cases "vs = []")
    case True
    have "skip_ws (93 # rest) = 93 # rest" by (rule skip_ws_nonws) (simp add: json_ws_def)
    then show ?thesis using True by (simp add: f)
  next
    case False
    then obtain w ws where vs: "vs = w # ws" by (cases vs) auto
    let ?ind' = "ind @ [32, 32]"
    let ?X = "js_join ([44, 10] @ ?ind') (map (serialize ns ?ind') vs) @ 10 # ind @ 93 # rest"
    have sp': "\<forall>c\<in>set ?ind'. c = 32" using JArr.prems(2) by simp
    have shape: "serialize ns ind (JArr vs) @ rest = 91 # 10 # ?ind' @ ?X"
      using False by simp
    have sk: "skip_ws (10 # ?ind' @ ?X) = ?X"
      unfolding vs by (rule skip_to_values [OF nt sp'])
    obtain d t where X: "?X = d # t" "d \<noteq> 93"
    proof -
      from serialize_start [OF nt, of ?ind' w] obtain c cs where
        "serialize ns ?ind' w = c # cs" "value_start c" by blast
      then have "?X = c # (cs @ (if ws = [] then [] else ([44, 10] @ ?ind') @ js_join ([44, 10] @ ?ind') (map (serialize ns ?ind') ws)) @ 10 # ind @ 93 # rest)" "c \<noteq> 93"
        by (simp_all add: vs js_join_Cons value_start_not_close)
      then show ?thesis by (rule that)
    qed
    have fuel: "2 * length ?X + 1 < f1"
      using JArr.prems(4) f unfolding shape by simp
    have pe: "parse_elements nl f1 ?X [] = Ok (JArr ([] @ map (renorm nl ns) vs), rest)"
    proof (rule parse_elements_serialize [OF nt sp' JArr.prems(2) False _ fuel])
      fix v r g
      assume "v \<in> set vs" "follow_ok r" "2 * length (serialize ns ?ind' v @ r) < g"
      moreover from this(1) JArr.prems(1) have "canonical v" by simp
      ultimately show "parse_value nl g (serialize ns ?ind' v @ r) = Ok (renorm nl ns v, r)"
        using sp' by (intro JArr.IH) auto
    qed
    have "parse_value nl (Suc f1) (91 # 10 # ?ind' @ ?X) = Ok (JArr (map (renorm nl ns) vs), rest)"
      using sk X pe by simp
    then show ?thesis unfolding shape f by simp
  qed
next
  case (JObj ms)
  from JObj.prems(4) obtain f1 where f: "f = Suc f1" by (cases f) auto
  show ?case
  proof (cases "ms = []")
    case True
    have "skip_ws (125 # rest) = 125 # rest" by (rule skip_ws_nonws) (simp add: json_ws_def)
    then show ?thesis using True by (simp add: f)
  next
    case False
    then obtain w ws where ms: "ms = w # ws" by (cases ms) auto
    let ?ind' = "ind @ [32, 32]"
    let ?mem = "\<lambda>(k, v). QuoteJSONString k @ [58, 32] @ serialize ns ?ind' v"
    let ?X = "js_join ([44, 10] @ ?ind') (map ?mem ms) @ 10 # ind @ 125 # rest"
    have sp': "\<forall>c\<in>set ?ind'. c = 32" using JObj.prems(2) by simp
    have shape: "serialize ns ind (JObj ms) @ rest = 123 # 10 # ?ind' @ ?X"
      using False by simp
    have sk: "skip_ws (10 # ?ind' @ ?X) = ?X"
      unfolding ms by (rule skip_to_members [OF sp'])
    obtain t where X: "?X = 34 # t"
    proof -
      obtain k v where "w = (k, v)" by (cases w)
      then have "?X = 34 # (quote_units k @ [34] @ [58, 32] @ serialize ns ?ind' v @ (if ws = [] then [] else ([44, 10] @ ?ind') @ js_join ([44, 10] @ ?ind') (map ?mem ws)) @ 10 # ind @ 125 # rest)"
        by (simp add: ms js_join_Cons QuoteJSONString_def)
      then show ?thesis by (rule that)
    qed
    have fuel: "2 * length ?X + 1 < f1"
      using JObj.prems(4) f unfolding shape by simp
    have keys: "canonical_keys (map fst ([] @ ms))" using JObj.prems(1) by simp
    have pm: "parse_members nl f1 ?X (map (\<lambda>m. (fst m, renorm nl ns (snd m))) [])
        = Ok (JObj (map (\<lambda>m. (fst m, renorm nl ns (snd m))) ([] @ ms)), rest)"
    proof (rule parse_members_serialize [OF nt sp' JObj.prems(2) False keys _ fuel])
      fix m r g
      assume a: "m \<in> set ms" "follow_ok r" "2 * length (serialize ns ?ind' (snd m) @ r) < g"
      from a(1) JObj.prems(1) have c: "canonical (snd m)" by simp
      have s: "snd m \<in> Basic_BNFs.snds m" by (cases m) simp
      show "parse_value nl g (serialize ns ?ind' (snd m) @ r) = Ok (renorm nl ns (snd m), r)"
        by (rule JObj.IH [OF a(1) s c sp' a(2) a(3)])
    qed
    have "parse_value nl (Suc f1) (123 # 10 # ?ind' @ ?X)
        = Ok (JObj (map (\<lambda>m. (fst m, renorm nl ns (snd m))) ms), rest)"
      using sk X pm by simp
    then show ?thesis unfolding shape f by simp
  qed
next
  case JNull
  from JNull.prems(4) have "0 < f" by auto
  show ?case by (rule parse_value_atom [OF nt JNull.prems(3) \<open>0 < f\<close>]) simp_all
next
  case (JBool b)
  from JBool.prems(4) have "0 < f" by auto
  show ?case by (rule parse_value_atom [OF nt JBool.prems(3) \<open>0 < f\<close>]) simp_all
next
  case (JNum n)
  from JNum.prems(4) have "0 < f" by auto
  show ?case by (rule parse_value_atom [OF nt JNum.prems(3) \<open>0 < f\<close>]) simp_all
next
  case (JStr s)
  from JStr.prems(4) have "0 < f" by auto
  show ?case by (rule parse_value_atom [OF nt JStr.prems(3) \<open>0 < f\<close>]) simp_all
qed

lemma serialize_renorm:
  assumes "number_round_trip nl ns"
  shows "serialize ns ind (renorm nl ns v) = serialize ns ind v"
proof (induction v arbitrary: ind)
  case (JNum n)
  show ?case
  proof (cases "ns n")
    case None
    then show ?thesis by simp
  next
    case (Some t)
    with assms have "ns (nl t) = Some t" by (auto simp: number_round_trip_def)
    with Some show ?thesis by simp
  qed
next
  case (JArr vs)
  have e: "map (serialize ns (ind @ [32, 32])) (map (renorm nl ns) vs)
      = map (serialize ns (ind @ [32, 32])) vs"
    using JArr.IH by simp
  show ?case by (simp only: renorm.simps serialize.simps e map_is_Nil_conv)
next
  case (JObj ms)
  have e: "map (\<lambda>(k, v). QuoteJSONString k @ [58, 32] @ serialize ns (ind @ [32, 32]) v)
          (map (\<lambda>m. (fst m, renorm nl ns (snd m))) ms)
      = map (\<lambda>(k, v). QuoteJSONString k @ [58, 32] @ serialize ns (ind @ [32, 32]) v) ms"
  proof -
    have "QuoteJSONString (fst m) @ [58, 32] @ serialize ns (ind @ [32, 32]) (renorm nl ns (snd m))
        = QuoteJSONString (fst m) @ [58, 32] @ serialize ns (ind @ [32, 32]) (snd m)"
      if m: "m \<in> set ms" for m
    proof -
      have "snd m \<in> Basic_BNFs.snds m" by (cases m) simp
      from JObj.IH [OF m this] show ?thesis by simp
    qed
    then show ?thesis by (simp add: case_prod_beta)
  qed
  show ?case by (simp only: renorm.simps serialize.simps e map_is_Nil_conv)
qed simp_all

lemma canonical_obj_put:
  assumes "canonical_keys (map fst acc)" and "\<forall>m\<in>set acc. canonical (snd m)" and "canonical v"
  shows "canonical_keys (map fst (obj_put k v acc)) \<and> (\<forall>m\<in>set (obj_put k v acc). canonical (snd m))"
proof -
  have "canonical (snd m)" if "m \<in> set (obj_put k v acc)" for m
  proof -
    from that have "snd m \<in> snd ` set (obj_put k v acc)" by simp
    with values_obj_put [of k v acc] have "snd m = v \<or> snd m \<in> snd ` set acc" by blast
    with assms(2,3) show ?thesis by auto
  qed
  then have "\<forall>m\<in>set (obj_put k v acc). canonical (snd m)" by blast
  with canonical_keys_obj_put [OF assms(1)] show ?thesis by simp
qed

lemma parse_canonical_all:
  "(\<forall>s v r. parse_value nl f s = Ok (v, r) \<longrightarrow> canonical v)
   \<and> (\<forall>s acc v r. (\<forall>a\<in>set acc. canonical a) \<longrightarrow> parse_elements nl f s acc = Ok (v, r)
          \<longrightarrow> canonical v)
   \<and> (\<forall>s acc v r. canonical_keys (map fst acc) \<longrightarrow> (\<forall>m\<in>set acc. canonical (snd m))
          \<longrightarrow> parse_members nl f s acc = Ok (v, r) \<longrightarrow> canonical v)"
proof (induction f)
  case 0
  show ?case by simp
next
  case (Suc f)
  then have IHv: "\<And>s v r. parse_value nl f s = Ok (v, r) \<Longrightarrow> canonical v"
    and IHe: "\<And>s acc v r. (\<forall>a\<in>set acc. canonical a) \<Longrightarrow> parse_elements nl f s acc = Ok (v, r)
          \<Longrightarrow> canonical v"
    and IHm: "\<And>s acc v r. canonical_keys (map fst acc) \<Longrightarrow> (\<forall>m\<in>set acc. canonical (snd m))
          \<Longrightarrow> parse_members nl f s acc = Ok (v, r) \<Longrightarrow> canonical v"
    by blast+
  have v: "canonical v" if "parse_value nl (Suc f) s = Ok (v, r)" for s v r
  proof (cases s)
    case Nil
    with that show ?thesis by simp
  next
    case (Cons c cs)
    consider "c = 123" | "c = 91" | "c \<noteq> 123" "c \<noteq> 91" by blast
    then show ?thesis
    proof cases
      case 1
      show ?thesis
      proof (cases "skip_ws cs")
        case Nil
        with that Cons 1 show ?thesis by simp
      next
        case (Cons d t)
        show ?thesis
        proof (cases "d = 125")
          case True
          with that \<open>s = c # cs\<close> 1 Cons show ?thesis by (auto simp: canonical_keys_def)
        next
          case False
          with that \<open>s = c # cs\<close> 1 Cons have "parse_members nl f (d # t) [] = Ok (v, r)" by simp
          then show ?thesis by (rule IHm [rotated 2]) (simp_all add: canonical_keys_def)
        qed
      qed
    next
      case 2
      show ?thesis
      proof (cases "skip_ws cs")
        case Nil
        with that Cons 2 show ?thesis by simp
      next
        case (Cons d t)
        show ?thesis
        proof (cases "d = 93")
          case True
          with that \<open>s = c # cs\<close> 2 Cons show ?thesis by auto
        next
          case False
          with that \<open>s = c # cs\<close> 2 Cons have "parse_elements nl f (d # t) [] = Ok (v, r)" by simp
          then show ?thesis by (rule IHe [rotated]) simp
        qed
      qed
    next
      case 3
      with that Cons show ?thesis
        by (auto split: if_splits option.splits simp del: lex_string.simps)
    qed
  qed
  have e: "canonical v"
    if "\<forall>a\<in>set acc. canonical a" "parse_elements nl (Suc f) s acc = Ok (v, r)" for s acc v r
  proof -
    from that(2) obtain x rest where pv: "parse_value nl f s = Ok (x, rest)"
      by (auto split: parse.splits)
    then have cx: "canonical x" by (rule IHv)
    show ?thesis
    proof (cases "skip_ws rest")
      case Nil
      with that(2) pv show ?thesis by simp
    next
      case (Cons d t)
      consider "d = 44" | "d \<noteq> 44" "d = 93" | "d \<noteq> 44" "d \<noteq> 93" by blast
      then show ?thesis
      proof cases
        case 1
        with that(2) pv Cons have "parse_elements nl f (skip_ws t) (acc @ [x]) = Ok (v, r)" by simp
        then show ?thesis by (rule IHe [rotated]) (use that(1) cx in auto)
      next
        case 2
        with that pv Cons cx show ?thesis by auto
      next
        case 3
        with that(2) pv Cons show ?thesis by simp
      qed
    qed
  qed
  have m: "canonical v"
    if "canonical_keys (map fst acc)" "\<forall>m\<in>set acc. canonical (snd m)"
      "parse_members nl (Suc f) s acc = Ok (v, r)" for s acc v r
  proof -
    from that(3) obtain cs k rest rest1 x rest2 where
      s: "s = 34 # cs" and lx: "lex_string cs = Some (k, rest)"
      and colon: "skip_ws rest = 58 # rest1"
      and pv: "parse_value nl f (skip_ws rest1) = Ok (x, rest2)"
      by (auto split: list.splits if_splits option.splits parse.splits simp del: lex_string.simps)
    from pv have cx: "canonical x" by (rule IHv)
    from canonical_obj_put [OF that(1,2) cx]
    have put: "canonical_keys (map fst (obj_put k x acc))" "\<forall>m\<in>set (obj_put k x acc). canonical (snd m)"
      by blast+
    show ?thesis
    proof (cases "skip_ws rest2")
      case Nil
      with that(3) s lx colon pv show ?thesis by (simp del: lex_string.simps)
    next
      case (Cons d t)
      consider "d = 44" | "d \<noteq> 44" "d = 125" | "d \<noteq> 44" "d \<noteq> 125" by blast
      then show ?thesis
      proof cases
        case 1
        with that(3) s lx colon pv Cons
        have "parse_members nl f (skip_ws t) (obj_put k x acc) = Ok (v, r)"
          by (simp del: lex_string.simps)
        then show ?thesis by (rule IHm [OF put])
      next
        case 2
        with that(3) s lx colon pv Cons have "v = JObj (obj_put k x acc)"
          by (simp del: lex_string.simps)
        with put show ?thesis by simp
      next
        case 3
        with that(3) s lx colon pv Cons show ?thesis by (simp del: lex_string.simps)
      qed
    qed
  qed
  from v e m show ?case by blast
qed

lemma JSON_parse_canonical: "JSON_parse nl s = Some v \<Longrightarrow> canonical v"
proof -
  assume "JSON_parse nl s = Some v"
  then obtain r where "parse_value nl (2 * length s + 1) (skip_ws s) = Ok (v, r)"
    by (auto simp: JSON_parse_def split: parse.splits if_splits prod.splits
        simp del: parse_value.simps)
  with parse_canonical_all [of nl "2 * length s + 1"] show "canonical v" by blast
qed

lemma skip_ws_length: "length (skip_ws s) \<le> length s"
  by (simp add: skip_ws_def takeWhile_dropWhile_length)

lemma skip_ws_Cons_length: "skip_ws s = d # t \<Longrightarrow> length t < length s"
  using skip_ws_length [of s] by simp

lemma parse_consumes_all:
  "(\<forall>s v r. parse_value nl f s = Ok (v, r) \<longrightarrow> length r < length s)
   \<and> (\<forall>s acc v r. parse_elements nl f s acc = Ok (v, r) \<longrightarrow> length r < length s)
   \<and> (\<forall>s acc v r. parse_members nl f s acc = Ok (v, r) \<longrightarrow> length r < length s)"
proof (induction f)
  case 0
  show ?case by simp
next
  case (Suc f)
  then have IHv: "\<And>s v r. parse_value nl f s = Ok (v, r) \<Longrightarrow> length r < length s"
    and IHe: "\<And>s acc v r. parse_elements nl f s acc = Ok (v, r) \<Longrightarrow> length r < length s"
    and IHm: "\<And>s acc v r. parse_members nl f s acc = Ok (v, r) \<Longrightarrow> length r < length s"
    by blast+
  have v: "length r < length s" if "parse_value nl (Suc f) s = Ok (v, r)" for s v r
  proof (cases s)
    case Nil
    with that show ?thesis by simp
  next
    case (Cons c cs)
    consider "c = 123" | "c = 91" | "c \<noteq> 123" "c \<noteq> 91" "c = 34"
      | "c \<noteq> 123" "c \<noteq> 91" "c \<noteq> 34" by blast
    then show ?thesis
    proof cases
      case 1
      show ?thesis
      proof (cases "skip_ws cs")
        case Nil
        with that Cons 1 show ?thesis by simp
      next
        case sk: (Cons d t)
        show ?thesis
        proof (cases "d = 125")
          case True
          with that Cons 1 sk have "r = t" by simp
          with skip_ws_Cons_length [OF sk] Cons show ?thesis by simp
        next
          case False
          with that Cons 1 sk have "parse_members nl f (d # t) [] = Ok (v, r)" by simp
          from IHm [OF this] skip_ws_length [of cs] sk Cons show ?thesis by simp
        qed
      qed
    next
      case 2
      show ?thesis
      proof (cases "skip_ws cs")
        case Nil
        with that Cons 2 show ?thesis by simp
      next
        case sk: (Cons d t)
        show ?thesis
        proof (cases "d = 93")
          case True
          with that Cons 2 sk have "r = t" by simp
          with skip_ws_Cons_length [OF sk] Cons show ?thesis by simp
        next
          case False
          with that Cons 2 sk have "parse_elements nl f (d # t) [] = Ok (v, r)" by simp
          from IHe [OF this] skip_ws_length [of cs] sk Cons show ?thesis by simp
        qed
      qed
    next
      case 3
      with that Cons obtain x where "lex_string cs = Some (x, r)"
        by (auto split: option.splits simp del: lex_string.simps)
      from lex_string_consumes [OF this] Cons show ?thesis by simp
    next
      case 4
      show ?thesis
      proof (cases "js_startsWith s [116, 114, 117, 101] \<or> js_startsWith s [102, 97, 108, 115, 101]
          \<or> js_startsWith s [110, 117, 108, 108]")
        case True
        with that Cons 4 have "r = drop 4 s \<or> r = drop 5 s"
          by (auto split: if_splits simp del: lex_string.simps)
        with Cons show ?thesis by auto
      next
        case False
        with that Cons 4 obtain lit where "lex_number s = Some (lit, r)"
          by (auto split: option.splits simp del: lex_string.simps)
        from lex_number_first [OF this] show ?thesis by auto
      qed
    qed
  qed
  have e: "length r < length s" if "parse_elements nl (Suc f) s acc = Ok (v, r)" for s acc v r
  proof -
    from that obtain x rest where pv: "parse_value nl f s = Ok (x, rest)"
      by (auto split: parse.splits)
    from IHv [OF pv] have l: "length rest < length s" .
    show ?thesis
    proof (cases "skip_ws rest")
      case Nil
      with that pv show ?thesis by simp
    next
      case (Cons d t)
      from skip_ws_Cons_length [OF Cons] l have lt: "length t < length s" by simp
      consider "d = 44" | "d \<noteq> 44" "d = 93" | "d \<noteq> 44" "d \<noteq> 93" by blast
      then show ?thesis
      proof cases
        case 1
        with that pv Cons have "parse_elements nl f (skip_ws t) (acc @ [x]) = Ok (v, r)" by simp
        from IHe [OF this] skip_ws_length [of t] lt show ?thesis by simp
      next
        case 2
        with that pv Cons have "r = t" by simp
        with lt show ?thesis by simp
      next
        case 3
        with that pv Cons show ?thesis by simp
      qed
    qed
  qed
  have m: "length r < length s" if "parse_members nl (Suc f) s acc = Ok (v, r)" for s acc v r
  proof -
    from that obtain cs k rest rest1 x rest2 where
      s: "s = 34 # cs" and lx: "lex_string cs = Some (k, rest)"
      and colon: "skip_ws rest = 58 # rest1"
      and pv: "parse_value nl f (skip_ws rest1) = Ok (x, rest2)"
      by (auto split: list.splits if_splits option.splits parse.splits simp del: lex_string.simps)
    have "length rest2 < length (skip_ws rest1)" by (rule IHv [OF pv])
    with skip_ws_length [of rest1] skip_ws_Cons_length [OF colon] lex_string_consumes [OF lx] s
    have l: "length rest2 < length s" by simp
    show ?thesis
    proof (cases "skip_ws rest2")
      case Nil
      with that s lx colon pv show ?thesis by (simp del: lex_string.simps)
    next
      case (Cons d t)
      from skip_ws_Cons_length [OF Cons] l have lt: "length t < length s" by simp
      consider "d = 44" | "d \<noteq> 44" "d = 125" | "d \<noteq> 44" "d \<noteq> 125" by blast
      then show ?thesis
      proof cases
        case 1
        with that s lx colon pv Cons
        have "parse_members nl f (skip_ws t) (obj_put k x acc) = Ok (v, r)"
          by (simp del: lex_string.simps)
        from IHm [OF this] skip_ws_length [of t] lt show ?thesis by simp
      next
        case 2
        with that s lx colon pv Cons have "r = t" by (simp del: lex_string.simps)
        with lt show ?thesis by simp
      next
        case 3
        with that s lx colon pv Cons show ?thesis by (simp del: lex_string.simps)
      qed
    qed
  qed
  from v e m show ?case by blast
qed

lemma parse_value_consumes: "parse_value nl f s = Ok (v, r) \<Longrightarrow> length r < length s"
  using parse_consumes_all [of nl f] by blast

lemma parse_fuel_all:
  "(\<forall>s. 2 * length s < f \<longrightarrow> parse_value nl f s \<noteq> OutOfFuel)
   \<and> (\<forall>s acc. 2 * length s + 1 < f \<longrightarrow> parse_elements nl f s acc \<noteq> OutOfFuel)
   \<and> (\<forall>s acc. 2 * length s + 1 < f \<longrightarrow> parse_members nl f s acc \<noteq> OutOfFuel)"
proof (induction f)
  case 0
  show ?case by simp
next
  case (Suc f)
  then have IHv: "\<And>s. 2 * length s < f \<Longrightarrow> parse_value nl f s \<noteq> OutOfFuel"
    and IHe: "\<And>s acc. 2 * length s + 1 < f \<Longrightarrow> parse_elements nl f s acc \<noteq> OutOfFuel"
    and IHm: "\<And>s acc. 2 * length s + 1 < f \<Longrightarrow> parse_members nl f s acc \<noteq> OutOfFuel"
    by blast+
  have v: "parse_value nl (Suc f) s \<noteq> OutOfFuel" if "2 * length s < Suc f" for s
  proof (cases s)
    case Nil
    then show ?thesis by simp
  next
    case (Cons c cs)
    have sub: "2 * length t + 1 < f" if "skip_ws cs = t" for t
      using skip_ws_length [of cs] that \<open>2 * length s < Suc f\<close> Cons by auto
    consider "c = 123" | "c = 91" | "c \<noteq> 123" "c \<noteq> 91" by blast
    then show ?thesis
    proof cases
      case 1
      show ?thesis
      proof (cases "skip_ws cs")
        case Nil
        with Cons 1 show ?thesis by simp
      next
        case sk: (Cons d t)
        from IHm [OF sub [OF sk]] Cons 1 sk show ?thesis by simp
      qed
    next
      case 2
      show ?thesis
      proof (cases "skip_ws cs")
        case Nil
        with Cons 2 show ?thesis by simp
      next
        case sk: (Cons d t)
        from IHe [OF sub [OF sk]] Cons 2 sk show ?thesis by simp
      qed
    next
      case 3
      with Cons show ?thesis
        by (auto split: option.splits simp del: lex_string.simps)
    qed
  qed
  have e: "parse_elements nl (Suc f) s acc \<noteq> OutOfFuel" if "2 * length s + 1 < Suc f" for s acc
  proof (cases "parse_value nl f s")
    case SyntaxError
    then show ?thesis by simp
  next
    case OutOfFuel
    with IHv [of s] that show ?thesis by simp
  next
    case (Ok p)
    obtain x rest where p: "p = (x, rest)" by (cases p)
    from parse_value_consumes Ok p have l: "length rest < length s" by blast
    show ?thesis
    proof (cases "skip_ws rest")
      case Nil
      with Ok p show ?thesis by simp
    next
      case (Cons d t)
      from skip_ws_Cons_length [OF Cons] l skip_ws_length [of t] that
      have "2 * length (skip_ws t) + 1 < f" by simp
      from IHe [OF this] Ok p Cons show ?thesis by simp
    qed
  qed
  have m: "parse_members nl (Suc f) s acc \<noteq> OutOfFuel" if "2 * length s + 1 < Suc f" for s acc
  proof (cases s)
    case Nil
    then show ?thesis by simp
  next
    case (Cons q cs)
    show ?thesis
    proof (cases "q = 34")
      case False
      with Cons show ?thesis by simp
    next
      case True
      show ?thesis
      proof (cases "lex_string cs")
        case None
        with Cons True show ?thesis by (simp del: lex_string.simps)
      next
        case (Some kr)
        obtain k rest where kr: "kr = (k, rest)" by (cases kr)
        from lex_string_consumes Some kr have l0: "length rest < length cs" by blast
        show ?thesis
        proof (cases "skip_ws rest")
          case Nil
          with Cons True Some kr show ?thesis by (simp del: lex_string.simps)
        next
          case colon: (Cons c1 rest1)
          from skip_ws_Cons_length [OF colon] l0 Cons
          have l1: "length rest1 + 2 < length s" by simp
          show ?thesis
          proof (cases "c1 = 58")
            case False
            with Cons True Some kr colon show ?thesis by (simp del: lex_string.simps)
          next
            case c58: True
            have fv: "2 * length (skip_ws rest1) < f"
              using skip_ws_length [of rest1] l1 that by simp
            show ?thesis
            proof (cases "parse_value nl f (skip_ws rest1)")
              case SyntaxError
              with Cons True Some kr colon c58 show ?thesis by (simp del: lex_string.simps)
            next
              case OutOfFuel
              with IHv [OF fv] show ?thesis by simp
            next
              case (Ok p)
              obtain x rest2 where p: "p = (x, rest2)" by (cases p)
              from parse_value_consumes Ok p have "length rest2 < length (skip_ws rest1)" by blast
              with skip_ws_length [of rest1] l1 have l2: "length rest2 + 2 < length s" by simp
              show ?thesis
              proof (cases "skip_ws rest2")
                case Nil
                with Cons True Some kr colon c58 Ok p show ?thesis by (simp del: lex_string.simps)
              next
                case d: (Cons d t)
                from skip_ws_Cons_length [OF d] l2 skip_ws_length [of t] that
                have "2 * length (skip_ws t) + 1 < f" by simp
                from IHm [OF this] Cons True Some kr colon c58 Ok p d show ?thesis
                  by (simp del: lex_string.simps)
              qed
            qed
          qed
        qed
      qed
    qed
  qed
  from v e m show ?case by blast
qed

lemma JSON_parse_fuel:
  "parse_value nl (2 * length s + 1) (skip_ws s) \<noteq> OutOfFuel"
proof -
  have "2 * length (skip_ws s) < 2 * length s + 1"
    using skip_ws_length [of s] by simp
  with parse_fuel_all [where f = "2 * length s + 1" and nl = nl] show ?thesis by blast
qed

lemma formatPureJSON_idem:
  assumes nt: "number_texts ns" and rt: "number_round_trip nl ns"
    and xy: "formatPureJSON nl ns x = Some y"
  shows "formatPureJSON nl ns y = Some y"
proof -
  from xy obtain v where v: "JSON_parse nl x = Some v" and y: "y = serialize ns [] v @ [10]"
    by (auto simp: formatPureJSON_def JSON_stringify_def split: option.splits)
  from v have c: "canonical v" by (rule JSON_parse_canonical)
  from serialize_start [OF nt, of "[]" v] obtain d t where s: "serialize ns [] v = d # t" "value_start d"
    by blast
  from s(2) have "\<not> json_ws d" by (rule value_start_not_ws)
  with s(1) have sk: "skip_ws y = y" by (simp add: y skip_ws_def)
  have "parse_value nl (2 * length y + 1) (serialize ns [] v @ [10]) = Ok (renorm nl ns v, [10])"
    by (rule parse_serialize [OF nt c]) (simp_all add: follow_ok_simps y)
  then have "JSON_parse nl y = Some (renorm nl ns v)"
    unfolding JSON_parse_def sk by (simp add: y skip_ws_def json_ws_def)
  then show ?thesis
    by (simp add: formatPureJSON_def JSON_stringify_def serialize_renorm [OF rt] y)
qed

lemma decimal_small: "n < 10 \<Longrightarrow> decimal n = [48 + n]"
  by (subst decimal.simps) simp

lemma decimal_large: "\<not> n < 10 \<Longrightarrow> decimal n = decimal (n div 10) @ [48 + n mod 10]"
  by (subst decimal.simps) simp

lemma index_value_snoc: "index_value (xs @ [c]) = 10 * index_value xs + (c - 48)"
  by (simp add: index_value_def)

lemma decimal_digits: "list_all is_digit (decimal n) \<and> decimal n \<noteq> []"
proof (induction n rule: decimal.induct)
  case (1 n)
  show ?case
  proof (cases "n < 10")
    case True
    then show ?thesis by (simp add: decimal_small is_digit_def)
  next
    case False
    have "n mod 10 < 10" by simp
    then have "is_digit (48 + n mod 10)" by (simp add: is_digit_def)
    with 1 False show ?thesis by (simp add: decimal_large)
  qed
qed

lemma index_value_decimal: "index_value (decimal n) = n"
proof (induction n rule: decimal.induct)
  case (1 n)
  show ?case
  proof (cases "n < 10")
    case True
    then show ?thesis by (simp add: decimal_small index_value_def)
  next
    case False
    with 1 show ?thesis by (simp add: decimal_large index_value_snoc)
  qed
qed

lemma decimal_hd: "0 < n \<Longrightarrow> hd (decimal n) \<noteq> 48"
proof (induction n rule: decimal.induct)
  case (1 n)
  show ?case
  proof (cases "n < 10")
    case True
    with 1(2) show ?thesis by (simp add: decimal_small)
  next
    case False
    then have "0 < n div 10" by simp
    with 1(1) False have "hd (decimal (n div 10)) \<noteq> 48" by simp
    with decimal_digits [of "n div 10"] False show ?thesis by (simp add: decimal_large)
  qed
qed

lemma takeWhile_all: "list_all P xs \<Longrightarrow> takeWhile P xs = xs \<and> dropWhile P xs = []"
  by (induction xs) auto

lemma json_number_decimal: "json_number (decimal n)"
proof -
  from decimal_digits [of n] obtain c r where d: "decimal n = c # r" "is_digit c" "list_all is_digit r"
    by (cases "decimal n") auto
  have tw: "takeWhile is_digit r = r" "dropWhile is_digit r = []"
    using takeWhile_all [OF d(3)] by simp_all
  show ?thesis
  proof (cases "n = 0")
    case True
    then show ?thesis
      by (simp add: decimal_small json_number_def lex_number_def lex_int_def lex_frac_def lex_exp_def)
  next
    case False
    then have "c \<noteq> 48" using decimal_hd [of n] d(1) by simp
    with d(2) have c: "49 \<le> c" "c \<le> 57" "c \<noteq> 45" by (auto simp: is_digit_def)
    then show ?thesis
      unfolding json_number_def d(1)
      by (simp add: lex_number_def lex_int_def lex_frac_def lex_exp_def tw)
  qed
qed

lemma example_number_texts: "number_texts example_ns"
  by (auto simp: number_texts_def example_ns_def json_number_decimal)

lemma example_number_round_trip: "number_round_trip example_nl example_ns"
  using decimal_digits
  by (auto simp: number_round_trip_def example_ns_def example_nl_def index_value_decimal)

lemma decimal_numeral [simp]:
  "decimal (numeral k) = (if (numeral k :: nat) < 10 then [48 + numeral k]
     else decimal (numeral k div 10) @ [48 + numeral k mod 10])"
  by (rule decimal.simps)

lemma decimal_zero [simp]: "decimal 0 = [48]"
  by (simp add: decimal_small)

lemma decimal_one [simp]: "decimal (Suc 0) = [49]"
  by (simp add: decimal_small)

lemmas parse_value_numeral = parse_value.simps(2) [where f = "pred_numeral k", folded numeral_eq_Suc] for k

lemmas parse_elements_numeral = parse_elements.simps(2) [where f = "pred_numeral k", folded numeral_eq_Suc] for k

lemmas parse_members_numeral = parse_members.simps(2) [where f = "pred_numeral k", folded numeral_eq_Suc] for k

lemmas json_eval = parse_value_numeral parse_elements_numeral parse_members_numeral str_def formatPureJSON_def JSON_parse_def JSON_stringify_def skip_ws_def
  json_ws_def js_startsWith_def lex_number_def lex_int_def lex_frac_def lex_exp_def is_digit_def
  obj_put_def is_array_index_def index_value_def QuoteJSONString_def quote_unit_def
  lead_surrogate_def trail_surrogate_def unescape_def hex4_def hex_value_def Let_def

lemma formatPureJSON_instance:
  assumes "ns (nl [49]) = Some [49]" "ns (nl [50]) = Some [50]" "ns (nl [51]) = Some [51]"
  shows "formatPureJSON nl ns (str ''{\"a\":1,\"b\":[1,2,3]}'')
    = Some (str ''{'' @ [10] @ str ''  \"a\": 1,'' @ [10] @ str ''  \"b\": ['' @ [10] @ str ''    1,'' @ [10]
       @ str ''    2,'' @ [10] @ str ''    3'' @ [10] @ str ''  ]'' @ [10] @ str ''}'' @ [10])"
  using assms by (simp add: json_eval)

lemma formatPureJSON_example:
  "formatPureJSON example_nl example_ns (str ''[10, {\"b\": \"x\", \"7\": null, \"b\": 1.5}]'')
    = Some (str ''['' @ [10] @ str ''  10,'' @ [10] @ str ''  {'' @ [10] @ str ''    \"7\": null,'' @ [10]
       @ str ''    \"b\": null'' @ [10] @ str ''  }'' @ [10] @ str '']'' @ [10])"
  by (simp add: json_eval example_nl_def example_ns_def)

text \<open>
  Claim C4. \<^verbatim>\<open>formatPureJSON\<close> is idempotent: when it formats a text \<open>x\<close> (the text is
  a JSON document: \<^verbatim>\<open>JSON.parse\<close> accepts it) and gives \<open>y\<close>, it formats \<open>y\<close> and gives
  \<open>y\<close> again. The conversions of numbers are those of the runtime, of which two facts are
  used: the text of a finite number is a JSON number literal, and the number read from
  that text has the same text. The instance: where 1, 2 and 3 are written as they are
  read, the document \<^verbatim>\<open>{"a":1,"b":[1,2,3]}\<close> becomes an opening brace, the member
  \<^verbatim>\<open>"a": 1,\<close> behind two spaces, the member \<^verbatim>\<open>"b": [\<close> behind two spaces, the three
  elements behind four spaces on a line each, the bracket behind two spaces, the brace,
  and a final line feed.
\<close>

theorem formatPureJSON_idempotent:
  assumes "number_texts ns" and "number_round_trip nl ns"
  shows "(formatPureJSON nl ns x = Some y \<longrightarrow> formatPureJSON nl ns y = Some y)
    \<and> (ns (nl (str ''1'')) = Some (str ''1'') \<and> ns (nl (str ''2'')) = Some (str ''2'')
         \<and> ns (nl (str ''3'')) = Some (str ''3'') \<longrightarrow>
       formatPureJSON nl ns (str ''{\"a\":1,\"b\":[1,2,3]}'')
         = Some (str ''{'' @ [10] @ str ''  \"a\": 1,'' @ [10] @ str ''  \"b\": ['' @ [10]
             @ str ''    1,'' @ [10] @ str ''    2,'' @ [10] @ str ''    3'' @ [10]
             @ str ''  ]'' @ [10] @ str ''}'' @ [10]))"
proof (intro conjI impI)
  assume "formatPureJSON nl ns x = Some y"
  with assms show "formatPureJSON nl ns y = Some y" by (rule formatPureJSON_idem)
next
  assume "ns (nl (str ''1'')) = Some (str ''1'') \<and> ns (nl (str ''2'')) = Some (str ''2'')
    \<and> ns (nl (str ''3'')) = Some (str ''3'')"
  then have "ns (nl [49]) = Some [49]" "ns (nl [50]) = Some [50]" "ns (nl [51]) = Some [51]"
    by (simp_all add: str_def)
  then show "formatPureJSON nl ns (str ''{\"a\":1,\"b\":[1,2,3]}'')
         = Some (str ''{'' @ [10] @ str ''  \"a\": 1,'' @ [10] @ str ''  \"b\": ['' @ [10]
             @ str ''    1,'' @ [10] @ str ''    2,'' @ [10] @ str ''    3'' @ [10]
             @ str ''  ]'' @ [10] @ str ''}'' @ [10])"
    by (rule formatPureJSON_instance)
qed

theorem formatPureJSON_idempotent_witness:
  "formatPureJSON example_nl example_ns (str ''[10, {\"b\": \"x\", \"7\": null, \"b\": 1.5}]'')
     = Some (str ''['' @ [10] @ str ''  10,'' @ [10] @ str ''  {'' @ [10]
         @ str ''    \"7\": null,'' @ [10] @ str ''    \"b\": null'' @ [10] @ str ''  }'' @ [10]
         @ str '']'' @ [10])
   \<and> formatPureJSON example_nl example_ns
       (str ''['' @ [10] @ str ''  10,'' @ [10] @ str ''  {'' @ [10]
         @ str ''    \"7\": null,'' @ [10] @ str ''    \"b\": null'' @ [10] @ str ''  }'' @ [10]
         @ str '']'' @ [10])
     = Some (str ''['' @ [10] @ str ''  10,'' @ [10] @ str ''  {'' @ [10]
         @ str ''    \"7\": null,'' @ [10] @ str ''    \"b\": null'' @ [10] @ str ''  }'' @ [10]
         @ str '']'' @ [10])
   \<and> formatPureJSON example_nl example_ns (str ''{\"a\":1,\"b\":[1,2,3]}'')
     = Some (str ''{'' @ [10] @ str ''  \"a\": 1,'' @ [10] @ str ''  \"b\": ['' @ [10]
         @ str ''    1,'' @ [10] @ str ''    2,'' @ [10] @ str ''    3'' @ [10]
         @ str ''  ]'' @ [10] @ str ''}'' @ [10])"
proof -
  have n: "example_ns (example_nl (str ''1'')) = Some (str ''1'')
      \<and> example_ns (example_nl (str ''2'')) = Some (str ''2'')
      \<and> example_ns (example_nl (str ''3'')) = Some (str ''3'')"
    by (simp add: example_nl_def example_ns_def str_def is_digit_def index_value_def)
  note t = formatPureJSON_idempotent [OF example_number_texts example_number_round_trip]
  from t [THEN conjunct1, rule_format, OF formatPureJSON_example]
    t [THEN conjunct2, rule_format, OF n] formatPureJSON_example
  show ?thesis by blast
qed

section \<open>The routing of \<^verbatim>\<open>formatJSON\<close>\<close>

lemma starts_pair: "js_startsWith s [a, b] \<longleftrightarrow> (\<exists>t. s = a # b # t)"
  by (cases s; cases "tl s") (auto simp: js_startsWith_def)

lemma starts_pair_nth: "js_startsWith s [a, b] \<longleftrightarrow> (1 < length s \<and> s ! 0 = a \<and> s ! 1 = b)"
  by (cases s; cases "tl s") (auto simp: js_startsWith_def)

lemma leading_space_pair:
  assumes "\<not> P a"
  shows "js_startsWith (dropWhile P s) [a, b]
    \<longleftrightarrow> (\<exists>i. i + 1 < length s \<and> s ! i = a \<and> s ! (i + 1) = b \<and> (\<forall>k<i. P (s ! k)))"
proof
  assume "js_startsWith (dropWhile P s) [a, b]"
  then obtain t where d: "dropWhile P s = a # b # t" by (auto simp: starts_pair)
  define w where "w = takeWhile P s"
  have sw: "s = w @ a # b # t" using d takeWhile_dropWhile_id [of P s] by (simp add: w_def)
  have pw: "\<forall>c\<in>set w. P c" by (auto simp: w_def dest: set_takeWhileD)
  have 1: "length w + 1 < length s" by (subst sw) simp
  have 2: "s ! length w = a" by (subst sw) simp
  have 3: "s ! (length w + 1) = b" by (subst sw) (simp add: nth_append)
  have 4: "\<forall>k<length w. P (s ! k)"
  proof (intro allI impI)
    fix k assume k: "k < length w"
    then have "s ! k = w ! k" by (subst sw) (simp add: nth_append)
    with k pw show "P (s ! k)" by simp
  qed
  from 1 2 3 4 show "\<exists>i. i + 1 < length s \<and> s ! i = a \<and> s ! (i + 1) = b \<and> (\<forall>k<i. P (s ! k))"
    by blast
next
  assume "\<exists>i. i + 1 < length s \<and> s ! i = a \<and> s ! (i + 1) = b \<and> (\<forall>k<i. P (s ! k))"
  then obtain i where i: "i + 1 < length s" "s ! i = a" "s ! (i + 1) = b" "\<forall>k<i. P (s ! k)"
    by blast
  have all: "\<forall>x\<in>set (take i s). P x"
    using i(1,4) by (auto simp: in_set_conv_nth)
  have "drop i s = s ! i # drop (Suc i) s"
    using i(1) by (simp add: Cons_nth_drop_Suc)
  moreover have "drop (Suc i) s = s ! (Suc i) # drop (Suc (Suc i)) s"
    using i(1) by (simp add: Cons_nth_drop_Suc)
  ultimately have dr: "drop i s = a # b # drop (Suc (Suc i)) s"
    using i(2,3) by simp
  have "dropWhile P s = dropWhile P (take i s @ drop i s)" by simp
  also have "\<dots> = dropWhile P (drop i s)"
    by (rule dropWhile_append2) (use all in auto)
  also have "\<dots> = a # b # drop (Suc (Suc i)) s"
    unfolding dr using assms by simp
  finally show "js_startsWith (dropWhile P s) [a, b]" by (simp add: starts_pair)
qed

lemma includes_pair:
  "js_includes s [a, b] \<longleftrightarrow> (\<exists>i. i + 1 < length s \<and> s ! i = a \<and> s ! (i + 1) = b)"
proof (induction s)
  case Nil
  show ?case by simp
next
  case (Cons c cs)
  show ?case
  proof
    assume "js_includes (c # cs) [a, b]"
    then consider "js_startsWith (c # cs) [a, b]" | "js_includes cs [a, b]" by auto
    then show "\<exists>i. i + 1 < length (c # cs) \<and> (c # cs) ! i = a \<and> (c # cs) ! (i + 1) = b"
    proof cases
      case 1
      then have "0 + 1 < length (c # cs) \<and> (c # cs) ! 0 = a \<and> (c # cs) ! (0 + 1) = b"
        by (simp add: starts_pair_nth)
      then show ?thesis by blast
    next
      case 2
      with Cons.IH obtain i where "i + 1 < length cs" "cs ! i = a" "cs ! (i + 1) = b" by blast
      then have "Suc i + 1 < length (c # cs) \<and> (c # cs) ! Suc i = a \<and> (c # cs) ! (Suc i + 1) = b"
        by simp
      then show ?thesis by blast
    qed
  next
    assume "\<exists>i. i + 1 < length (c # cs) \<and> (c # cs) ! i = a \<and> (c # cs) ! (i + 1) = b"
    then obtain i where i: "i + 1 < length (c # cs)" "(c # cs) ! i = a" "(c # cs) ! (i + 1) = b"
      by blast
    show "js_includes (c # cs) [a, b]"
    proof (cases i)
      case 0
      with i show ?thesis by (simp add: starts_pair_nth)
    next
      case (Suc j)
      with i have "j + 1 < length cs \<and> cs ! j = a \<and> cs ! (j + 1) = b" by simp
      with Cons.IH show ?thesis by auto
    qed
  qed
qed

lemma slashes_behind_other_iff:
  "slashes_behind_other s \<longleftrightarrow>
     (\<exists>i. i + 2 < length s \<and> s ! i \<noteq> 58 \<and> s ! i \<noteq> 34 \<and> s ! (i + 1) = 47 \<and> s ! (i + 2) = 47)"
proof (induction s)
  case Nil
  show ?case by simp
next
  case (Cons c cs)
  let ?Q = "\<lambda>s i. i + 2 < length s \<and> s ! i \<noteq> 58 \<and> s ! i \<noteq> 34 \<and> s ! (i + 1) = 47 \<and> s ! (i + 2) = (47 :: nat)"
  show ?case
  proof
    assume "slashes_behind_other (c # cs)"
    then consider "c \<noteq> 58" "c \<noteq> 34" "js_startsWith cs [47, 47]" | "slashes_behind_other cs" by auto
    then show "\<exists>i. ?Q (c # cs) i"
    proof cases
      case 1
      then have "?Q (c # cs) 0" by (simp add: starts_pair_nth)
      then show ?thesis by blast
    next
      case 2
      with Cons.IH obtain i where "?Q cs i" by blast
      then have "?Q (c # cs) (Suc i)" by simp
      then show ?thesis by blast
    qed
  next
    assume "\<exists>i. ?Q (c # cs) i"
    then obtain i where i: "?Q (c # cs) i" by blast
    show "slashes_behind_other (c # cs)"
    proof (cases i)
      case 0
      with i show ?thesis by (simp add: starts_pair_nth)
    next
      case (Suc j)
      with i have "?Q cs j" by simp
      with Cons.IH show ?thesis by auto
    qed
  qed
qed

lemma js_space_slash: "\<not> js_space 47"
  by (simp add: js_space_def)

lemma hasComments_iff: "hasComments content \<longleftrightarrow> comment_bearing content"
  unfolding hasComments_def comment_bearing_def
  by (simp only: leading_space_pair [where P = js_space and a = 47, OF js_space_slash]
      includes_pair slashes_behind_other_iff disj_assoc)

lemma js_split_hd: "\<exists>r. s = hd (js_split sep s) @ r"
  by (induction s) (auto split: list.splits simp: js_split_nonempty)

lemma js_split_tl: "l \<in> set (tl (js_split sep s)) \<Longrightarrow> \<exists>a r. s = a @ sep # l @ r"
proof (induction s)
  case Nil
  then show ?case by simp
next
  case (Cons c cs)
  show ?case
  proof (cases "c = sep")
    case True
    with Cons.prems have "l \<in> set (js_split sep cs)" by simp
    then have "l = hd (js_split sep cs) \<or> l \<in> set (tl (js_split sep cs))"
      by (cases "js_split sep cs") auto
    then show ?thesis
    proof
      assume "l = hd (js_split sep cs)"
      with js_split_hd [of cs sep] obtain r where "cs = l @ r" by auto
      with True have "c # cs = [] @ sep # l @ r" by simp
      then show ?thesis by blast
    next
      assume "l \<in> set (tl (js_split sep cs))"
      with Cons.IH obtain a r where "cs = a @ sep # l @ r" by blast
      then have "c # cs = (c # a) @ sep # l @ r" by simp
      then show ?thesis by blast
    qed
  next
    case False
    with Cons.prems have "l \<in> set (tl (js_split sep cs))"
      by (auto split: list.splits)
    with Cons.IH obtain a r where "cs = a @ sep # l @ r" by blast
    then have "c # cs = (c # a) @ sep # l @ r" by simp
    then show ?thesis by blast
  qed
qed

lemma includes_inside: "js_includes (a @ x # y # b) [x, y]"
  by (induction a) (simp_all add: js_startsWith_def)

lemma slashes_behind_other_append: "slashes_behind_other b \<Longrightarrow> slashes_behind_other (a @ b)"
  by (induction a) simp_all

lemma slashes_behind_space:
  assumes "pre \<noteq> []" and "last pre \<noteq> 58" and "last pre \<noteq> 34"
  shows "slashes_behind_other (pre @ 47 # 47 # rest)"
proof -
  from assms(1) have "pre = butlast pre @ [last pre]" by simp
  then have "pre @ 47 # 47 # rest = (butlast pre @ [last pre]) @ 47 # 47 # rest" by simp
  then have e: "pre @ 47 # 47 # rest = butlast pre @ (last pre # 47 # 47 # rest)"
    by (simp only: append_assoc append_Cons append_Nil)
  have "slashes_behind_other (last pre # 47 # 47 # rest)"
    using assms(2,3) by (simp add: js_startsWith_def)
  then have "slashes_behind_other (butlast pre @ (last pre # 47 # 47 # rest))"
    by (rule slashes_behind_other_append)
  then show ?thesis by (subst e)
qed

lemma js_space_not_colon_quote: "js_space c \<Longrightarrow> c \<noteq> 58 \<and> c \<noteq> 34"
  by (auto simp: js_space_def)

lemma line_comment_hasComments:
  assumes "list_ex line_begins_comment (js_split 10 content)"
  shows "hasComments content"
proof -
  from assms obtain l where l: "l \<in> set (js_split 10 content)" and b: "line_begins_comment l"
    by (auto simp: list_ex_iff)
  let ?ws = "takeWhile js_space l"
  from b obtain x t where d: "dropWhile js_space l = 47 # x # t" and x: "x = 47 \<or> x = 42"
    by (auto simp: line_begins_comment_def starts_pair)
  have shape: "l = ?ws @ 47 # x # t" using d takeWhile_dropWhile_id [of js_space l] by simp
  have ws: "\<forall>c\<in>set ?ws. js_space c" by (auto dest: set_takeWhileD)
  from l have "l = hd (js_split 10 content) \<or> l \<in> set (tl (js_split 10 content))"
    by (cases "js_split 10 content") auto
  then show ?thesis
  proof
    assume "l = hd (js_split 10 content)"
    with js_split_hd [of content 10] obtain r0 where "content = l @ r0" by auto
    then have "content = (?ws @ 47 # x # t) @ r0" using shape by simp
    then have c: "content = ?ws @ 47 # x # t @ r0"
      by (simp only: append_assoc append_Cons)
    from x show ?thesis
    proof
      assume "x = 47"
      have "dropWhile js_space content = 47 # 47 # t @ r0"
        unfolding c using ws \<open>x = 47\<close> by (simp add: js_space_slash)
      then show ?thesis by (simp add: hasComments_def js_startsWith_def)
    next
      assume "x = 42"
      have "js_includes (?ws @ 47 # 42 # t @ r0) [47, 42]" by (rule includes_inside)
      with c \<open>x = 42\<close> have "js_includes content [47, 42]" by simp
      then show ?thesis by (simp add: hasComments_def)
    qed
  next
    assume "l \<in> set (tl (js_split 10 content))"
    from js_split_tl [OF this] obtain a r where "content = a @ 10 # l @ r" by blast
    then have "content = a @ 10 # (?ws @ 47 # x # t) @ r" using shape by simp
    then have c: "content = (a @ 10 # ?ws) @ 47 # x # t @ r"
      by (simp only: append_assoc append_Cons)
    from x show ?thesis
    proof
      assume "x = 47"
      have "last (a @ 10 # ?ws) = 10 \<or> last (a @ 10 # ?ws) \<in> set ?ws"
        by (cases "?ws = []") auto
      then have "last (a @ 10 # ?ws) \<noteq> 58 \<and> last (a @ 10 # ?ws) \<noteq> 34"
        using ws js_space_not_colon_quote by (auto simp: js_space_def)
      then have "slashes_behind_other ((a @ 10 # ?ws) @ 47 # 47 # t @ r)"
        by (intro slashes_behind_space) auto
      with c \<open>x = 47\<close> show ?thesis by (simp add: hasComments_def)
    next
      assume "x = 42"
      have "js_includes ((a @ 10 # ?ws) @ 47 # 42 # t @ r) [47, 42]" by (rule includes_inside)
      with c \<open>x = 42\<close> have "js_includes content [47, 42]" by simp
      then show ?thesis by (simp add: hasComments_def)
    qed
  qed
qed

lemmas route_eval = hasComments_def formatJSONC_def split_lines_def strip_cr_def jsonc_line_def
  js_repeat_def indentStr_def collapse_final_newlines_def ensure_final_newline_def jsonc_eval

text \<open>
  C3 (as amended). The dispatcher takes a content for comment-bearing exactly when the
  content begins, after white space, with two slashes, or has a slash and a star anywhere,
  or has two slashes behind a character that is neither a colon nor a double quote; a
  content with a line that begins, after white space, with two slashes or with a slash
  and a star is comment-bearing. A comment-bearing content goes to the JSONC formatter;
  any other content goes to the strict formatter, and to the JSONC formatter when the
  strict parse fails. The dispatcher returns for every content. The content of the line
  \<^verbatim>\<open>// comment\<close> and the line \<^verbatim>\<open>{"a":1}\<close> is comment-bearing and is returned with
  its two lines as they are.
\<close>

theorem formatJSON_routing:
  "(hasComments content \<longleftrightarrow> comment_bearing content)
   \<and> (list_ex line_begins_comment (js_split 10 content) \<longrightarrow> comment_bearing content)
   \<and> formatJSON nl ns content
       = (if comment_bearing content then formatJSONC content
          else case formatPureJSON nl ns content of
                 Some out \<Rightarrow> Some out
               | None \<Rightarrow> formatJSONC content)
   \<and> (\<exists>out. formatJSON nl ns content = Some out)
   \<and> comment_bearing (str ''// comment'' @ [10] @ str ''{\"a\":1}'')
   \<and> formatJSON nl ns (str ''// comment'' @ [10] @ str ''{\"a\":1}'')
       = Some (str ''// comment'' @ [10] @ str ''{\"a\":1}'' @ [10])"
proof -
  have a: "hasComments c \<longleftrightarrow> comment_bearing c" for c
    by (rule hasComments_iff)
  have b: "list_ex line_begins_comment (js_split 10 content) \<longrightarrow> comment_bearing content"
    using line_comment_hasComments [of content] by (simp add: a)
  have c: "formatJSON nl ns content
       = (if comment_bearing content then formatJSONC content
          else case formatPureJSON nl ns content of
                 Some out \<Rightarrow> Some out
               | None \<Rightarrow> formatJSONC content)"
    by (simp add: formatJSON_def a)
  have d: "\<exists>out. formatJSON nl ns content = Some out"
    using formatJSONC_total [of content]
    by (auto simp: formatJSON_def split: option.splits)
  have h: "hasComments (str ''// comment'' @ [10] @ str ''{\"a\":1}'')"
    by (simp add: route_eval)
  then have e: "comment_bearing (str ''// comment'' @ [10] @ str ''{\"a\":1}'')"
    by (simp add: a)
  have "formatJSONC (str ''// comment'' @ [10] @ str ''{\"a\":1}'')
      = Some (str ''// comment'' @ [10] @ str ''{\"a\":1}'' @ [10])"
    by (simp add: route_eval)
  with h have f: "formatJSON nl ns (str ''// comment'' @ [10] @ str ''{\"a\":1}'')
       = Some (str ''// comment'' @ [10] @ str ''{\"a\":1}'' @ [10])"
    by (simp add: formatJSON_def)
  from a b c d e f show ?thesis by blast
qed

theorem formatJSON_routing_witness:
  "formatJSON example_nl example_ns (str ''{\"u\":\"http://x\"}'')
     = Some (str ''{'' @ [10] @ str ''  \"u\": \"http://x\"'' @ [10] @ str ''}'' @ [10])
   \<and> formatJSON example_nl example_ns (str ''  /* c */'' @ [10] @ str ''[1]'')
     = Some (str ''/* c */'' @ [10] @ str ''[1]'' @ [10])"
proof -
  note t = formatJSON_routing [of "str ''{\"u\":\"http://x\"}''" example_nl example_ns]
  have "\<not> hasComments (str ''{\"u\":\"http://x\"}'')"
    by (simp add: route_eval)
  with t have n: "\<not> comment_bearing (str ''{\"u\":\"http://x\"}'')" by blast
  have p: "formatPureJSON example_nl example_ns (str ''{\"u\":\"http://x\"}'')
     = Some (str ''{'' @ [10] @ str ''  \"u\": \"http://x\"'' @ [10] @ str ''}'' @ [10])"
    by (simp add: json_eval example_nl_def example_ns_def)
  from t n p have a: "formatJSON example_nl example_ns (str ''{\"u\":\"http://x\"}'')
     = Some (str ''{'' @ [10] @ str ''  \"u\": \"http://x\"'' @ [10] @ str ''}'' @ [10])"
    by simp
  note u = formatJSON_routing [of "str ''  /* c */'' @ [10] @ str ''[1]''" example_nl example_ns]
  have "list_ex line_begins_comment (js_split 10 (str ''  /* c */'' @ [10] @ str ''[1]''))"
    by (simp add: line_begins_comment_def js_startsWith_def js_space_def str_def)
  with u have c: "comment_bearing (str ''  /* c */'' @ [10] @ str ''[1]'')" by blast
  have j: "formatJSONC (str ''  /* c */'' @ [10] @ str ''[1]'')
      = Some (str ''/* c */'' @ [10] @ str ''[1]'' @ [10])"
    by (simp add: route_eval)
  from u c j have b: "formatJSON example_nl example_ns (str ''  /* c */'' @ [10] @ str ''[1]'')
     = Some (str ''/* c */'' @ [10] @ str ''[1]'' @ [10])"
    by simp
  from a b show ?thesis by blast
qed

text \<open>
  The claim as the specification words it fails in both directions. The content
  \<^verbatim>\<open>{"u":"http://x"}\<close> has two slashes behind a colon, which is not a quote character,
  and goes to the strict formatter: the result is the text of the strict formatter, not
  that of the JSONC formatter. The content \<^verbatim>\<open>{"a":"x/*y"}\<close> has no line that begins
  with a comment and no two slashes, and goes to the JSONC formatter: the result is the
  line as it is, not the text of the strict formatter.
\<close>

theorem formatJSON_routing_counterexample:
  "\<not> comment_free_as_specified (str ''{\"u\":\"http://x\"}'')
   \<and> formatJSON example_nl example_ns (str ''{\"u\":\"http://x\"}'')
     = Some (str ''{'' @ [10] @ str ''  \"u\": \"http://x\"'' @ [10] @ str ''}'' @ [10])
   \<and> formatJSONC (str ''{\"u\":\"http://x\"}'') = Some (str ''{\"u\":\"http: //x\"}'' @ [10])
   \<and> comment_free_as_specified (str ''{\"a\":\"x/*y\"}'')
   \<and> formatJSON example_nl example_ns (str ''{\"a\":\"x/*y\"}'')
     = Some (str ''{\"a\":\"x/*y\"}'' @ [10])
   \<and> formatPureJSON example_nl example_ns (str ''{\"a\":\"x/*y\"}'')
     = Some (str ''{'' @ [10] @ str ''  \"a\": \"x/*y\"'' @ [10] @ str ''}'' @ [10])"
proof -
  have a: "\<not> comment_free_as_specified (str ''{\"u\":\"http://x\"}'')"
    by (simp add: comment_free_as_specified_def js_startsWith_def str_def)
  have hu: "\<not> hasComments (str ''{\"u\":\"http://x\"}'')"
    by (simp add: route_eval)
  have pu: "formatPureJSON example_nl example_ns (str ''{\"u\":\"http://x\"}'')
     = Some (str ''{'' @ [10] @ str ''  \"u\": \"http://x\"'' @ [10] @ str ''}'' @ [10])"
    by (simp add: json_eval example_nl_def example_ns_def)
  from hu pu have b: "formatJSON example_nl example_ns (str ''{\"u\":\"http://x\"}'')
     = Some (str ''{'' @ [10] @ str ''  \"u\": \"http://x\"'' @ [10] @ str ''}'' @ [10])"
    by (simp add: formatJSON_def)
  have c: "formatJSONC (str ''{\"u\":\"http://x\"}'') = Some (str ''{\"u\":\"http: //x\"}'' @ [10])"
    by (simp add: route_eval)
  have d: "comment_free_as_specified (str ''{\"a\":\"x/*y\"}'')"
    by (simp add: comment_free_as_specified_def line_begins_comment_def js_startsWith_def
        js_space_def str_def)
  have hv: "hasComments (str ''{\"a\":\"x/*y\"}'')"
    by (simp add: route_eval)
  have jv: "formatJSONC (str ''{\"a\":\"x/*y\"}'') = Some (str ''{\"a\":\"x/*y\"}'' @ [10])"
    by (simp add: route_eval)
  from hv jv have e: "formatJSON example_nl example_ns (str ''{\"a\":\"x/*y\"}'')
     = Some (str ''{\"a\":\"x/*y\"}'' @ [10])"
    by (simp add: formatJSON_def)
  have f: "formatPureJSON example_nl example_ns (str ''{\"a\":\"x/*y\"}'')
     = Some (str ''{'' @ [10] @ str ''  \"a\": \"x/*y\"'' @ [10] @ str ''}'' @ [10])"
    by (simp add: json_eval example_nl_def example_ns_def)
  from a b c d e f show ?thesis by blast
qed

end
